theory Spec2Isabelle
  imports Complex_Main "HOL-Library.Product_Lexorder" "HOL-Library.Multiset"
begin

section \<open>The geometry kernel of the maze simulator (sim/GeometryUtilities.cpp)\<close>

subsection \<open>Scalars, points, polygons, segments\<close>

text \<open>
  Modelled from the spec: the sources declare the class \<open>Meters\<close> with a constructor from
  \<open>double\<close>; its base class \<open>Distance\<close>, the class \<open>MetersSquared\<close> and the arithmetic
  between them are not part of the sources. The data model makes a length scalar
  ``a wrapped real number with unit meters'' and an area scalar the product of two
  lengths, so both are HOL reals here and \<open>getMeters\<close>, \<open>getMetersSquared\<close> are the
  identity.

  The exact reading. The machine numbers of the program, the doubles inside the unit
  wrappers and the \<open>float\<close> locals, are read as exact reals. The program performs this
  arithmetic wherever every intermediate value is representable, as on the small
  integers and halves that the evaluations below use, and departs from it where a
  result is rounded, overflows or underflows. A property that rounding decides is
  therefore a fact of the exact reading only; it is marked so where it is stated and
  nothing is asserted of the program by it. What a machine division by zero produces
  (an infinity or a NaN, never a trap) is kept as a value of its own wherever the
  source divides, see \<open>Coordinates\<close> below.
\<close>

type_synonym Meters = real
type_synonym MetersSquared = real

text \<open>
  Modelled from the spec: \<open>Cartesian\<close> is declared outside the sources; a point is a
  pair \<open>(x: length, y: length)\<close> with accessors \<open>getX\<close> and \<open>getY\<close>.
\<close>

datatype Cartesian = Cartesian (getX: Meters) (getY: Meters)

text \<open>
  Modelled from the spec: \<open>Polygon\<close> is declared outside the sources; a polygon is an
  ordered sequence of points that exposes its vertex sequence through \<open>getVertices\<close>.
\<close>

datatype Polygon = Polygon (getVertices: "Cartesian list")

text \<open>A segment is a \<open>std::pair\<close> of points.\<close>

type_synonym Segment = "Cartesian \<times> Cartesian"

subsection \<open>crossProduct\<close>

text \<open>The coordinates are doubles in the program; the differences and products are exact here.\<close>

definition crossProduct :: "Cartesian \<Rightarrow> Cartesian \<Rightarrow> Cartesian \<Rightarrow> MetersSquared" where
  "crossProduct Z A B =
     (getX A - getX Z) * (getY B - getY Z) - (getY A - getY Z) * (getX B - getX Z)"

text \<open>
  Three points are collinear when one line contains them all: a line is the solution
  set of \<open>a * x + b * y = c\<close> with \<open>a\<close> and \<open>b\<close> not both zero.
\<close>

definition on_line :: "real \<Rightarrow> real \<Rightarrow> real \<Rightarrow> Cartesian \<Rightarrow> bool" where
  "on_line a b c P = (a * getX P + b * getY P = c)"

definition collinear_points :: "Cartesian \<Rightarrow> Cartesian \<Rightarrow> Cartesian \<Rightarrow> bool" where
  "collinear_points Z A B =
     (\<exists>a b c. (a \<noteq> 0 \<or> b \<noteq> 0) \<and> on_line a b c Z \<and> on_line a b c A \<and> on_line a b c B)"

subsection \<open>linesIntersect\<close>

text \<open>
  The source narrows the four cross products to \<open>float\<close> and multiplies them as
  \<open>float\<close>s; they are exact here, so a product that underflows to zero or overflows in
  the program keeps its sign here.
\<close>

definition linesIntersect :: "Segment \<Rightarrow> Segment \<Rightarrow> bool" where
  "linesIntersect A B =
     (let c1 = crossProduct (fst A) (fst B) (snd A);
          c2 = crossProduct (fst A) (snd B) (snd A);
          c3 = crossProduct (fst B) (fst A) (snd B);
          c4 = crossProduct (fst B) (snd A) (snd B)
      in c1 * c2 \<le> 0 \<and> c3 * c4 \<le> 0)"

text \<open>
  The specification's notion of two segments meeting: a point of the plane lies on
  both, a point of a segment being \<open>S1 + t * (S2 - S1)\<close> for some \<open>t\<close> between 0 and 1.
\<close>

definition on_segment :: "Cartesian \<Rightarrow> Segment \<Rightarrow> bool" where
  "on_segment P S =
     (\<exists>t. 0 \<le> t \<and> t \<le> 1
          \<and> getX P = getX (fst S) + t * (getX (snd S) - getX (fst S))
          \<and> getY P = getY (fst S) + t * (getY (snd S) - getY (fst S)))"

definition segments_meet :: "Segment \<Rightarrow> Segment \<Rightarrow> bool" where
  "segments_meet A B = (\<exists>P. on_segment P A \<and> on_segment P B)"

text \<open>All four cross products of linesIntersect vanish: the four endpoints are collinear.\<close>

definition all_cross_zero :: "Segment \<Rightarrow> Segment \<Rightarrow> bool" where
  "all_cross_zero A B \<longleftrightarrow>
     crossProduct (fst A) (fst B) (snd A) = 0 \<and> crossProduct (fst A) (snd B) (snd A) = 0
     \<and> crossProduct (fst B) (fst A) (snd B) = 0 \<and> crossProduct (fst B) (snd A) (snd B) = 0"

subsection \<open>Failures and non-finite results\<close>

text \<open>
  \<open>PreconditionFailure\<close> is what a failed \<open>ASSERT\<close> reports; \<open>BackOfEmptyVector\<close> stands
  for \<open>vertices.back()\<close> on an empty vector and \<open>IndexOutOfRange\<close> for an unchecked
  \<open>hull[...]\<close> access outside the vector, both of which the language leaves undefined.
\<close>

datatype failure = PreconditionFailure | BackOfEmptyVector | IndexOutOfRange

text \<open>
  Modelled from the spec: the macro \<open>ASSERT\<close> comes from Assert.h, which is not part
  of the sources. The specification has the call fail with an invalid-precondition
  error, non-recoverable for that call, when the asserted condition does not hold.
\<close>

definition ASSERT :: "bool \<Rightarrow> failure + unit" where
  "ASSERT c = (if c then Inr () else Inl PreconditionFailure)"

text \<open>
  A point computed through a division: the machine division by zero yields an infinity
  or a NaN and the arithmetic that follows keeps both coordinates non-finite, so such
  a result is the value \<open>Non_Finite_Point\<close> and never a pair of reals.
\<close>

datatype Coordinates = Finite_Point Cartesian | Non_Finite_Point

subsection \<open>getIntersectionPoint\<close>

text \<open>
  All locals are \<open>float\<close>s in the source and exact here, the square root included. The
  two tests for a zero divisor are exact as well: a divisor that is zero only before or
  only after rounding separates the program from this definition.
\<close>

definition getIntersectionPoint :: "Segment \<Rightarrow> Segment \<Rightarrow> failure + Coordinates" where
  "getIntersectionPoint A B =
     (case ASSERT (linesIntersect A B) of
        Inl e \<Rightarrow> Inl e
      | Inr _ \<Rightarrow>
          (let a1x = getX (fst A); a1y = getY (fst A);
               a2x = getX (snd A); a2y = getY (snd A);
               b1x = getX (fst B); b1y = getY (fst B);
               b2x = getX (snd B); b2y = getY (snd B);
               a2x = a2x - a1x; a2y = a2y - a1y;
               b1x = b1x - a1x; b1y = b1y - a1y;
               b2x = b2x - a1x; b2y = b2y - a1y;
               distAB = sqrt (a2x * a2x + a2y * a2y)
           in if distAB = 0 then Inr Non_Finite_Point
              else
               (let theCos = a2x / distAB;
                    theSin = a2y / distAB;
                    newX = b1x * theCos + b1y * theSin;
                    b1y = b1y * theCos - b1x * theSin;
                    b1x = newX;
                    newX = b2x * theCos + b2y * theSin;
                    b2y = b2y * theCos - b2x * theSin;
                    b2x = newX
                in if b2y - b1y = 0 then Inr Non_Finite_Point
                   else
                    (let ABpos = b2x + (b1x - b2x) * b2y / (b2y - b1y)
                     in Inr (Finite_Point
                              (Cartesian (a1x + ABpos * theCos) (a1y + ABpos * theSin)))))))"

subsection \<open>polygonArea\<close>

text \<open>
  The loop \<open>for (int i = 0; i < vertices.size(); i += 1)\<close> with its accumulator;
  \<open>vertices.at\<close> is only reached with \<open>i\<close> and \<open>j\<close> below the size, so its range check
  never fires. The accumulator is a \<open>float\<close> in the source and exact here.
\<close>

function polygonArea_loop :: "Cartesian list \<Rightarrow> nat \<Rightarrow> real \<Rightarrow> real" where
  "polygonArea_loop vertices i area =
     (if i < length vertices then
        (let j = (i + 1) mod length vertices;
             area = area + getX (vertices ! i) * getY (vertices ! j);
             area = area - getY (vertices ! i) * getX (vertices ! j)
         in polygonArea_loop vertices (i + 1) area)
      else area)"
  by pat_completeness auto
termination
  by (relation "measure (\<lambda>(vertices, i, area). length vertices - i)") auto

declare polygonArea_loop.simps [simp del]

definition polygonArea :: "Polygon \<Rightarrow> MetersSquared" where
  "polygonArea polygon =
     (let vertices = getVertices polygon;
          area = polygonArea_loop vertices 0 0;
          area = area / 2
      in \<bar>area\<bar>)"

text \<open>
  The shoelace sum as the specification words it: the sum over consecutive vertex
  pairs \<open>(Vi, Vj)\<close>, \<open>j = i + 1 mod n\<close>, of \<open>Vi.x * Vj.y - Vi.y * Vj.x\<close>.
\<close>

definition shoelace_sum :: "Cartesian list \<Rightarrow> real" where
  "shoelace_sum vs =
     (\<Sum>i<length vs. getX (vs ! i) * getY (vs ! ((i + 1) mod length vs))
                       - getY (vs ! i) * getX (vs ! ((i + 1) mod length vs)))"

definition shoelace_term :: "Cartesian list \<Rightarrow> nat \<Rightarrow> real" where
  "shoelace_term vs k = getX (vs ! k) * getY (vs ! ((k + 1) mod length vs))
                       - getY (vs ! k) * getX (vs ! ((k + 1) mod length vs))"

definition unit_square :: "Cartesian list" where
  "unit_square = [Cartesian 0 0, Cartesian 1 0, Cartesian 1 1, Cartesian 0 1]"

subsection \<open>centroid\<close>

function centroid_loop :: "Cartesian list \<Rightarrow> nat \<Rightarrow> Meters \<times> Meters \<Rightarrow> Meters \<times> Meters" where
  "centroid_loop vertices i (cx, cy) =
     (if i < length vertices then
        (let j = (i + 1) mod length vertices;
             cx = cx + (getX (vertices ! i) + getX (vertices ! j))
                        * (getX (vertices ! i) * getY (vertices ! j)
                           - getX (vertices ! j) * getY (vertices ! i));
             cy = cy + (getY (vertices ! i) + getY (vertices ! j))
                        * (getX (vertices ! i) * getY (vertices ! j)
                           - getX (vertices ! j) * getY (vertices ! i))
         in centroid_loop vertices (i + 1) (cx, cy))
      else (cx, cy))"
  by pat_completeness auto
termination
  by (relation "measure (\<lambda>(vertices, i, c). length vertices - i)") auto

declare centroid_loop.simps [simp del]

definition centroid_term_x :: "Cartesian list \<Rightarrow> nat \<Rightarrow> real" where
  "centroid_term_x vs i =
     (getX (vs ! i) + getX (vs ! ((i + 1) mod length vs)))
       * (getX (vs ! i) * getY (vs ! ((i + 1) mod length vs))
          - getX (vs ! ((i + 1) mod length vs)) * getY (vs ! i))"

definition centroid_term_y :: "Cartesian list \<Rightarrow> nat \<Rightarrow> real" where
  "centroid_term_y vs i =
     (getY (vs ! i) + getY (vs ! ((i + 1) mod length vs)))
       * (getX (vs ! i) * getY (vs ! ((i + 1) mod length vs))
          - getX (vs ! ((i + 1) mod length vs)) * getY (vs ! i))"

definition centroid :: "Polygon \<Rightarrow> Coordinates" where
  "centroid polygon =
     (let vertices = getVertices polygon;
          (cx, cy) = centroid_loop vertices 0 (0, 0);
          cx = \<bar>cx\<bar>;
          cy = \<bar>cy\<bar>;
          area = polygonArea polygon
      in if area * 6 = 0 then Non_Finite_Point
         else Finite_Point (Cartesian (cx / (area * 6)) (cy / (area * 6))))"

text \<open>
  The area-weighted centroid as the specification gives it, with \<open>A\<close> the signed
  shoelace area: \<open>cx = (1/6A) \<Sum> (xi + xj) (xi * yj - xj * yi)\<close> and the same with
  \<open>yi + yj\<close> for \<open>cy\<close>.
\<close>

definition signed_area :: "Cartesian list \<Rightarrow> real" where
  "signed_area vs = shoelace_sum vs / 2"

definition centroid_formula :: "Cartesian list \<Rightarrow> Cartesian" where
  "centroid_formula vs =
     (let n = length vs; A = signed_area vs
      in Cartesian
           ((1 / (6 * A)) * (\<Sum>i<n. (getX (vs ! i) + getX (vs ! ((i + 1) mod n)))
                * (getX (vs ! i) * getY (vs ! ((i + 1) mod n))
                   - getX (vs ! ((i + 1) mod n)) * getY (vs ! i))))
           ((1 / (6 * A)) * (\<Sum>i<n. (getY (vs ! i) + getY (vs ! ((i + 1) mod n)))
                * (getX (vs ! i) * getY (vs ! ((i + 1) mod n))
                   - getX (vs ! ((i + 1) mod n)) * getY (vs ! i)))))"

subsection \<open>getLineSegments\<close>

text \<open>The range-based loop over the vertices, carrying \<open>previousPoint\<close> and \<open>segments\<close>.\<close>

fun getLineSegments_loop :: "Cartesian \<Rightarrow> Cartesian list \<Rightarrow> Segment list \<Rightarrow> Segment list" where
  "getLineSegments_loop previousPoint [] segments = segments"
| "getLineSegments_loop previousPoint (currentPoint # rest) segments =
     getLineSegments_loop currentPoint rest (segments @ [(previousPoint, currentPoint)])"

definition getLineSegments :: "Polygon \<Rightarrow> failure + Segment list" where
  "getLineSegments polygon =
     (let vertices = getVertices polygon
      in if vertices = [] then Inl BackOfEmptyVector
         else Inr (getLineSegments_loop (last vertices) vertices []))"

text \<open>
  The order the specification describes: segment \<open>i\<close> connects vertex \<open>i\<close> to vertex
  \<open>i + 1 mod n\<close>.
\<close>

definition segments_in_vertex_order :: "Cartesian list \<Rightarrow> Segment list" where
  "segments_in_vertex_order vs =
     map (\<lambda>i. (vs ! i, vs ! ((i + 1) mod length vs))) [0..<length vs]"

subsection \<open>convexHull\<close>

text \<open>
  Modelled from the spec: \<open>operator<\<close> of \<open>Cartesian\<close>, which \<open>std::sort\<close> uses, is
  declared outside the sources; points are ordered lexicographically on \<open>(x, y)\<close>. Under
  a total order in which equivalent points are equal the sorted vector is unique, so
  the unstable \<open>std::sort\<close> is the insertion sort of the library on the coordinate pair.
\<close>

definition coords :: "Cartesian \<Rightarrow> real \<times> real" where
  "coords p = (getX p, getY p)"

definition sort_points :: "Cartesian list \<Rightarrow> Cartesian list" where
  "sort_points points = sort_key coords points"

text \<open>
  The inner loop \<open>while (k >= t && crossProduct(hull[k-2], hull[k-1], p) <= 0) k--\<close>, with
  \<open>t = 2\<close> for the lower hull. The indices are \<open>int\<close>s as in the source.
\<close>

function pop_loop :: "Cartesian list \<Rightarrow> int \<Rightarrow> int \<Rightarrow> Cartesian \<Rightarrow> failure + int" where
  "pop_loop hullv t k p =
     (if k \<ge> t then
        (if k - 2 < 0 \<or> int (length hullv) \<le> k - 1 then Inl IndexOutOfRange
         else if crossProduct (hullv ! nat (k - 2)) (hullv ! nat (k - 1)) p \<le> 0
              then pop_loop hullv t (k - 1) p
              else Inr k)
      else Inr k)"
  by pat_completeness auto
termination
  by (relation "measure (\<lambda>(hullv, t, k, p). nat (k - t + 1))") auto

declare pop_loop.simps [simp del]

text \<open>
  The vector \<open>hull\<close> of the source is called \<open>hullv\<close>, since \<open>hull\<close> is an operator of the
  logic's library. The assignment \<open>hull[k++] = p\<close>.\<close>

definition store :: "Cartesian list \<Rightarrow> int \<Rightarrow> Cartesian \<Rightarrow> failure + (Cartesian list \<times> int)" where
  "store hullv k p =
     (if k < 0 \<or> int (length hullv) \<le> k then Inl IndexOutOfRange
      else Inr (hullv[nat k := p], k + 1))"

text \<open>\<open>for (int i = 0; i < n; i += 1)\<close>: the lower hull.\<close>

function lower_loop ::
  "Cartesian list \<Rightarrow> int \<Rightarrow> int \<Rightarrow> Cartesian list \<Rightarrow> int \<Rightarrow> failure + (Cartesian list \<times> int)" where
  "lower_loop points n i hullv k =
     (if i < n then
        (case pop_loop hullv 2 k (points ! nat i) of
           Inl e \<Rightarrow> Inl e
         | Inr k \<Rightarrow>
             (case store hullv k (points ! nat i) of
                Inl e \<Rightarrow> Inl e
              | Inr (hullv, k) \<Rightarrow> lower_loop points n (i + 1) hullv k))
      else Inr (hullv, k))"
  by pat_completeness auto
termination
  by (relation "measure (\<lambda>(points, n, i, hullv, k). nat (n - i))") auto

declare lower_loop.simps [simp del]

text \<open>\<open>for (int i = n-2, t = k+1; i >= 0; i--)\<close>: the upper hull.\<close>

function upper_loop ::
  "Cartesian list \<Rightarrow> int \<Rightarrow> int \<Rightarrow> Cartesian list \<Rightarrow> int \<Rightarrow> failure + (Cartesian list \<times> int)" where
  "upper_loop points t i hullv k =
     (if i \<ge> 0 then
        (case pop_loop hullv t k (points ! nat i) of
           Inl e \<Rightarrow> Inl e
         | Inr k \<Rightarrow>
             (case store hullv k (points ! nat i) of
                Inl e \<Rightarrow> Inl e
              | Inr (hullv, k) \<Rightarrow> upper_loop points t (i - 1) hullv k))
      else Inr (hullv, k))"
  by pat_completeness auto
termination
  by (relation "measure (\<lambda>(points, t, i, hullv, k). nat (i + 1))") auto

declare upper_loop.simps [simp del]

text \<open>
  The body of convexHull. The \<open>2 * n\<close> cells of \<open>std::vector<Cartesian> hull(2*n)\<close> start as
  default-constructed points, taken to be the origin; none of them survives unassigned,
  since \<open>hull.resize(k)\<close> keeps the first \<open>k\<close> cells only. Both loops read \<open>points[i]\<close> with
  \<open>0 \<le> i < n\<close>. The \<open>int\<close>s \<open>n\<close> and \<open>2 * n\<close> are unbounded here.
\<close>

definition convexHull :: "Polygon list \<Rightarrow> failure + Polygon" where
  "convexHull polygons =
     (let points = concat (map getVertices polygons);
          n = int (length points);
          k = 0;
          hullv = replicate (nat (2 * n)) (Cartesian 0 0);
          points = sort_points points
      in case lower_loop points n 0 hullv k of
           Inl e \<Rightarrow> Inl e
         | Inr (hullv, k) \<Rightarrow>
             (case upper_loop points (k + 1) (n - 2) hullv k of
                Inl e \<Rightarrow> Inl e
              | Inr (hullv, k) \<Rightarrow> Inr (Polygon (take (nat k) hullv))))"

subsection \<open>The monotone chain as a stack\<close>

text \<open>
  The notions the correctness proof of convexHull is stated in. \<open>lexle\<close> is the order
  of the sort. The first \<open>k\<close> cells of the vector \<open>hull\<close> are a stack; \<open>pops\<close>, \<open>push\<close> and
  \<open>scan\<close> are the inner loop, one iteration and a whole pass on a list whose head is the
  top of the stack, and convexHull is proved equal to \<open>monotone_chain\<close> of the sorted
  points below. All of it belongs to the exact reading: the turn tests are cross
  products of reals.
\<close>

definition lexle :: "Cartesian \<Rightarrow> Cartesian \<Rightarrow> bool" where
  "lexle p q = (coords p \<le> coords q)"

fun pops :: "Cartesian list \<Rightarrow> Cartesian \<Rightarrow> Cartesian list" where
  "pops (t # b # st) p = (if crossProduct b t p \<le> 0 then pops (b # st) p else t # b # st)"
| "pops st p = st"

definition push :: "Cartesian list \<Rightarrow> Cartesian \<Rightarrow> Cartesian list" where
  "push st p = p # pops st p"

definition scan :: "Cartesian list \<Rightarrow> Cartesian list" where
  "scan ps = foldl push [] ps"

definition closed_chain :: "Cartesian list \<Rightarrow> Cartesian list" where
  "closed_chain ps = scan (rev ps) @ tl (scan ps)"

definition monotone_chain :: "Cartesian list \<Rightarrow> Cartesian list" where
  "monotone_chain ps = (if ps = [] then [] else rev (closed_chain ps))"

text \<open>
  Invariants of a stack, top first: every three successive points turn strictly left
  (read from the bottom), and every point of \<open>Q\<close> is on the left of or on every edge.
\<close>

fun turns :: "Cartesian list \<Rightarrow> bool" where
  "turns (c # b # a # st) = (0 < crossProduct a b c \<and> turns (b # a # st))"
| "turns st = True"

fun covers :: "Cartesian set \<Rightarrow> Cartesian list \<Rightarrow> bool" where
  "covers Q (b # a # st) = ((\<forall>q\<in>Q. 0 \<le> crossProduct a b q) \<and> covers Q (a # st))"
| "covers Q st = True"

definition chain_inv :: "Cartesian set \<Rightarrow> Cartesian list \<Rightarrow> bool" where
  "chain_inv Q st \<longleftrightarrow>
     st \<noteq> [] \<and> set st \<subseteq> Q \<and> sorted_wrt (\<lambda>x y. lexle y x) st \<and> turns st \<and> covers Q st
     \<and> (\<forall>q\<in>Q. lexle (last st) q) \<and> (\<forall>q\<in>Q. lexle q (hd st))"

definition pending :: "Cartesian set \<Rightarrow> Cartesian list \<Rightarrow> Cartesian \<Rightarrow> bool" where
  "pending Q st p \<longleftrightarrow> (\<forall>q\<in>Q. lexle (hd st) q \<longrightarrow> 0 \<le> crossProduct (hd st) p q)"

text \<open>
  A true hull vertex of a point set: a point of the set through which a line passes
  that has every other point of the set strictly on one side. Points inside the hull
  and points in the interior of a hull edge are not hull vertices.
\<close>

definition hull_vertex :: "Cartesian set \<Rightarrow> Cartesian \<Rightarrow> bool" where
  "hull_vertex S v \<longleftrightarrow>
     v \<in> S \<and> (\<exists>a b c. on_line a b c v \<and> (\<forall>q\<in>S. q \<noteq> v \<longrightarrow> a * getX q + b * getY q < c))"

text \<open>
  A corner of a counter-clockwise convex polygon around \<open>S\<close>: a strict left turn from
  \<open>u\<close> over \<open>v\<close> to \<open>w\<close> with all of \<open>S\<close> on the left of or on both edges.
\<close>

definition corner :: "Cartesian set \<Rightarrow> Cartesian \<Rightarrow> Cartesian \<Rightarrow> Cartesian \<Rightarrow> bool" where
  "corner S u v w \<longleftrightarrow>
     0 < crossProduct u v w \<and> (\<forall>q\<in>S. 0 \<le> crossProduct u v q) \<and> (\<forall>q\<in>S. 0 \<le> crossProduct v w q)"

text \<open>The point reflection at the origin; it turns the upper hull into a lower hull.\<close>

definition neg :: "Cartesian \<Rightarrow> Cartesian" where
  "neg p = Cartesian (- getX p) (- getY p)"

definition two_squares :: "Polygon list" where
  "two_squares =
     [Polygon unit_square, Polygon [Cartesian 3 0, Cartesian 4 0, Cartesian 4 1, Cartesian 3 1]]"

definition triangle :: "Cartesian list" where
  "triangle = [Cartesian 0 0, Cartesian 1 0, Cartesian 0 1]"

definition crossing_A :: Segment where
  "crossing_A = (Cartesian 0 0, Cartesian 1 1)"

definition crossing_B :: Segment where
  "crossing_B = (Cartesian 0 1, Cartesian 1 0)"

definition collinear_apart_A :: Segment where
  "collinear_apart_A = (Cartesian 0 0, Cartesian 1 0)"

definition collinear_apart_B :: Segment where
  "collinear_apart_B = (Cartesian 2 0, Cartesian 3 0)"

definition left_square :: "Cartesian list" where
  "left_square = [Cartesian (- 2) 0, Cartesian (- 1) 0, Cartesian (- 1) 1, Cartesian (- 2) 1]"

section \<open>Properties\<close>

subsection \<open>crossProduct\<close>

lemma crossProduct_collinear_zero:
  assumes "collinear_points Z A B"
  shows "crossProduct Z A B = 0"
proof -
  from assms obtain a b c where ab: "a \<noteq> 0 \<or> b \<noteq> 0"
    and z: "a * getX Z + b * getY Z = c"
    and a: "a * getX A + b * getY A = c"
    and b: "a * getX B + b * getY B = c"
    unfolding collinear_points_def on_line_def by blast
  define u1 where "u1 = getX A - getX Z"
  define v1 where "v1 = getY A - getY Z"
  define u2 where "u2 = getX B - getX Z"
  define v2 where "v2 = getY B - getY Z"
  have e1: "a * u1 = - (b * v1)"
    using z a by (simp add: u1_def v1_def algebra_simps)
  have e2: "a * u2 = - (b * v2)"
    using z b by (simp add: u2_def v2_def algebra_simps)
  have "a * (u1 * v2 - v1 * u2) = (a * u1) * v2 - v1 * (a * u2)"
    by (simp add: algebra_simps)
  also have "\<dots> = 0"
    by (simp add: e1 e2)
  finally have da: "a * (u1 * v2 - v1 * u2) = 0" .
  have "b * (u1 * v2 - v1 * u2) = u1 * (b * v2) - (b * v1) * u2"
    by (simp add: algebra_simps)
  also have "\<dots> = u1 * (- (a * u2)) - (- (a * u1)) * u2"
    using e1 e2 by simp
  also have "\<dots> = 0"
    by (simp add: algebra_simps)
  finally have db: "b * (u1 * v2 - v1 * u2) = 0" .
  from ab da db have "u1 * v2 - v1 * u2 = 0"
    by auto
  then show ?thesis
    by (simp add: crossProduct_def u1_def v1_def u2_def v2_def)
qed

text \<open>
  Of the exact reading only: crossProduct is antisymmetric in its last two arguments,
  and it is zero whenever its three arguments are collinear. The second part is not a
  property of the program: on the collinear points (1,3), (7,21), (2^52, 3 * 2^52) the
  differences and products are rounded and the doubles give -16.
\<close>

lemma crossProduct_antisymmetric_collinear:
  "crossProduct Z A B = - crossProduct Z B A
   \<and> (collinear_points Z A B \<longrightarrow> crossProduct Z A B = 0)"
proof
  show "crossProduct Z A B = - crossProduct Z B A"
    by (simp add: crossProduct_def algebra_simps)
  show "collinear_points Z A B \<longrightarrow> crossProduct Z A B = 0"
    by (simp add: crossProduct_collinear_zero)
qed

subsection \<open>linesIntersect\<close>

text \<open>
  C10. linesIntersect is symmetric in its two segments: exchanging them exchanges the
  two pairs of cross products, and the conjunction does not mind.
\<close>

theorem linesIntersect_symmetric:
  "linesIntersect A B = linesIntersect B A"
  by (auto simp add: linesIntersect_def Let_def)

subsection \<open>getLineSegments\<close>

lemma getLineSegments_loop_zip:
  "getLineSegments_loop previousPoint vs segments = segments @ zip (previousPoint # butlast vs) vs"
  by (induction vs arbitrary: previousPoint segments) auto

lemma getLineSegments_zip:
  "vs \<noteq> [] \<Longrightarrow> getLineSegments (Polygon vs) = Inr (zip (last vs # butlast vs) vs)"
  by (simp add: getLineSegments_def getLineSegments_loop_zip)

lemma closing_first_nth:
  assumes "i < length vs"
  shows "zip (last vs # butlast vs) vs ! i = (vs ! ((i + length vs - 1) mod length vs), vs ! i)"
proof (cases i)
  case 0
  with assms have "vs \<noteq> []" by auto
  with 0 assms show ?thesis by (simp add: last_conv_nth)
next
  case (Suc k)
  with assms have "(i + length vs - 1) mod length vs = k" by simp
  with Suc assms show ?thesis by (simp add: nth_butlast)
qed

text \<open>
  C2 (as amended). For a polygon with \<open>n \<ge> 3\<close> vertices getLineSegments returns
  exactly \<open>n\<close> segments, in vertex order but starting with the closing segment:
  segment \<open>i\<close> connects vertex \<open>i - 1 mod n\<close> to vertex \<open>i\<close>. Segment 0 connects vertex
  \<open>n - 1\<close> back to vertex 0 and the last segment connects vertex \<open>n - 2\<close> to vertex
  \<open>n - 1\<close>.
\<close>

theorem getLineSegments_closing_segment_first:
  assumes "getVertices P = vs" and "3 \<le> length vs"
  shows "\<exists>segs. getLineSegments P = Inr segs
           \<and> length segs = length vs
           \<and> (\<forall>i<length vs. segs ! i = (vs ! ((i + length vs - 1) mod length vs), vs ! i))
           \<and> segs ! 0 = (vs ! (length vs - 1), vs ! 0)
           \<and> last segs = (vs ! (length vs - 2), vs ! (length vs - 1))"
proof -
  let ?segs = "zip (last vs # butlast vs) vs"
  from assms have ne: "vs \<noteq> []" by auto
  have P: "P = Polygon vs" using assms(1) by (cases P) simp
  have g: "getLineSegments P = Inr ?segs"
    using ne by (simp add: P getLineSegments_zip)
  have len: "length ?segs = length vs" using ne by simp
  have nth: "\<forall>i<length vs. ?segs ! i = (vs ! ((i + length vs - 1) mod length vs), vs ! i)"
    using closing_first_nth by blast
  have first: "?segs ! 0 = (vs ! (length vs - 1), vs ! 0)"
    using closing_first_nth [of 0 vs] ne by simp
  have "last ?segs = ?segs ! (length vs - 1)"
    using ne len by (metis last_conv_nth length_0_conv)
  also have "\<dots> = (vs ! ((length vs - 1 + length vs - 1) mod length vs), vs ! (length vs - 1))"
    using closing_first_nth [of "length vs - 1" vs] ne by simp
  also have "(length vs - 1 + length vs - 1) mod length vs = length vs - 2"
  proof -
    have "length vs - 1 + length vs - 1 = length vs - 2 + length vs"
      using assms(2) by simp
    moreover have "(length vs - 2 + length vs) mod length vs = (length vs - 2) mod length vs"
      by simp
    moreover have "(length vs - 2) mod length vs = length vs - 2"
      using assms(2) by simp
    ultimately show ?thesis by simp
  qed
  finally have lst: "last ?segs = (vs ! (length vs - 2), vs ! (length vs - 1))" .
  from g len nth first lst show ?thesis by blast
qed

text \<open>
  C2 as stated (segment \<open>i\<close> connects vertex \<open>i\<close> to vertex \<open>i + 1 mod n\<close>, the last
  segment closing the loop) fails on a triangle: the closing segment comes first.
\<close>

theorem getLineSegments_vertex_order_counterexample:
  "getLineSegments (Polygon triangle) \<noteq> Inr (segments_in_vertex_order triangle)"
  by (simp add: getLineSegments_def triangle_def segments_in_vertex_order_def upt_rec)

theorem getLineSegments_closing_segment_first_witness:
  "3 \<le> length triangle
   \<and> (\<exists>segs. getLineSegments (Polygon triangle) = Inr segs
           \<and> length segs = length triangle
           \<and> (\<forall>i<length triangle.
                 segs ! i = (triangle ! ((i + length triangle - 1) mod length triangle), triangle ! i))
           \<and> segs ! 0 = (triangle ! (length triangle - 1), triangle ! 0)
           \<and> last segs = (triangle ! (length triangle - 2), triangle ! (length triangle - 1)))"
proof -
  have h1: "getVertices (Polygon triangle) = triangle" by simp
  have h2: "3 \<le> length triangle" by (simp add: triangle_def)
  show ?thesis
    using getLineSegments_closing_segment_first [OF h1 h2] h2 by blast
qed

subsection \<open>polygonArea\<close>

lemma polygonArea_loop_sum:
  "polygonArea_loop vs i area =
     area + (\<Sum>k = i..<length vs. getX (vs ! k) * getY (vs ! ((k + 1) mod length vs))
                       - getY (vs ! k) * getX (vs ! ((k + 1) mod length vs)))"
proof (induction vs i area rule: polygonArea_loop.induct)
  case (1 vertices i area)
  show ?case
  proof (cases "i < length vertices")
    case True
    then show ?thesis
      using "1.IH" [OF True refl refl refl]
      by (subst polygonArea_loop.simps) (simp add: Let_def sum.atLeast_Suc_lessThan algebra_simps)
  next
    case False
    then show ?thesis by (subst polygonArea_loop.simps) simp
  qed
qed

lemma polygonArea_shoelace: "polygonArea (Polygon vs) = \<bar>shoelace_sum vs / 2\<bar>"
  by (simp add: polygonArea_def polygonArea_loop_sum shoelace_sum_def Let_def lessThan_atLeast0)

lemma shoelace_sum_term: "shoelace_sum vs = (\<Sum>k<length vs. shoelace_term vs k)"
  by (simp add: shoelace_sum_def shoelace_term_def)

lemma sum_cyclic_shift:
  fixes g :: "nat \<Rightarrow> real"
  shows "(\<Sum>i<n. g (Suc i mod n)) = (\<Sum>i<n. g i)"
proof (cases n)
  case 0
  then show ?thesis by simp
next
  case (Suc m)
  have "(\<Sum>i<Suc m. g (Suc i mod Suc m)) = (\<Sum>i<m. g (Suc i mod Suc m)) + g 0"
    by simp
  also have "(\<Sum>i<m. g (Suc i mod Suc m)) = (\<Sum>i<m. g (Suc i))"
    by (rule sum.cong) auto
  also have "\<dots> + g 0 = (\<Sum>i<Suc m. g i)"
    by (simp only: sum.lessThan_Suc_shift add.commute)
  finally show ?thesis using Suc by simp
qed

lemma shoelace_term_rotate1:
  assumes "i < length vs"
  shows "shoelace_term (rotate1 vs) i = shoelace_term vs (Suc i mod length vs)"
proof -
  from assms have "0 < length vs" by auto
  then have "Suc i mod length vs < length vs" by simp
  moreover have "Suc (Suc i mod length vs) mod length vs = Suc (Suc i) mod length vs"
    by (simp add: mod_Suc_eq)
  ultimately show ?thesis
    using assms by (simp add: shoelace_term_def nth_rotate1)
qed

lemma shoelace_sum_rotate1: "shoelace_sum (rotate1 vs) = shoelace_sum vs"
proof -
  have "shoelace_sum (rotate1 vs) = (\<Sum>i<length vs. shoelace_term (rotate1 vs) i)"
    by (simp add: shoelace_sum_term)
  also have "\<dots> = (\<Sum>i<length vs. shoelace_term vs (Suc i mod length vs))"
    by (rule sum.cong) (simp_all add: shoelace_term_rotate1)
  also have "\<dots> = (\<Sum>i<length vs. shoelace_term vs i)"
    by (rule sum_cyclic_shift)
  also have "\<dots> = shoelace_sum vs"
    by (simp only: shoelace_sum_term)
  finally show ?thesis .
qed

lemma shoelace_sum_rotate: "shoelace_sum (rotate k vs) = shoelace_sum vs"
  by (induction k) (simp_all add: shoelace_sum_rotate1)

lemma shoelace_sum_rev: "shoelace_sum (rev vs) = - shoelace_sum vs"
proof (cases "length vs")
  case 0
  then show ?thesis by (simp add: shoelace_sum_def)
next
  case (Suc m)
  have inner: "shoelace_term (rev vs) i = - shoelace_term vs (m - Suc i)" if "i < m" for i
  proof -
    have "Suc i mod Suc m = Suc i" using that by simp
    moreover have "Suc m - Suc (Suc i) = m - Suc i" by simp
    moreover have "Suc m - Suc i = Suc (m - Suc i)" using that by simp
    moreover have "Suc (m - Suc i) mod Suc m = Suc (m - Suc i)" using that by simp
    ultimately show ?thesis
      using that Suc by (simp add: shoelace_term_def rev_nth)
  qed
  have outer: "shoelace_term (rev vs) m = - shoelace_term vs m"
    using Suc by (simp add: shoelace_term_def rev_nth)
  have "shoelace_sum (rev vs) = (\<Sum>i<m. shoelace_term (rev vs) i) + shoelace_term (rev vs) m"
    using Suc by (simp add: shoelace_sum_term)
  also have "(\<Sum>i<m. shoelace_term (rev vs) i) = (\<Sum>i<m. - shoelace_term vs (m - Suc i))"
    by (rule sum.cong) (simp_all add: inner)
  also have "\<dots> = - (\<Sum>i<m. shoelace_term vs (m - Suc i))"
    by (simp add: sum_negf)
  also have "(\<Sum>i<m. shoelace_term vs (m - Suc i)) = (\<Sum>i<m. shoelace_term vs i)"
    by (rule sum.nat_diff_reindex)
  also have "- (\<Sum>i<m. shoelace_term vs i) + shoelace_term (rev vs) m
             = - ((\<Sum>i<m. shoelace_term vs i) + shoelace_term vs m)"
    by (simp only: outer minus_add_distrib)
  also have "(\<Sum>i<m. shoelace_term vs i) + shoelace_term vs m = (\<Sum>i<Suc m. shoelace_term vs i)"
    by simp
  also have "\<dots> = shoelace_sum vs"
    by (simp only: shoelace_sum_term Suc)
  finally show ?thesis .
qed

lemma shoelace_sum_loop: "shoelace_sum vs = polygonArea_loop vs 0 0"
  by (simp add: polygonArea_loop_sum shoelace_sum_def lessThan_atLeast0)

lemma shoelace_unit_square: "shoelace_sum unit_square = 2"
  by (simp add: shoelace_sum_loop unit_square_def polygonArea_loop.simps)

lemma polygonArea_nonneg: "0 \<le> polygonArea P"
  by (simp add: polygonArea_def Let_def)

lemma polygonArea_rotate: "polygonArea (Polygon (rotate k vs)) = polygonArea (Polygon vs)"
  by (simp only: polygonArea_shoelace shoelace_sum_rotate)

lemma polygonArea_rev: "polygonArea (Polygon (rev vs)) = polygonArea (Polygon vs)"
  by (simp add: polygonArea_shoelace shoelace_sum_rev)

lemma polygonArea_unit_square: "polygonArea (Polygon unit_square) = 1"
  by (simp add: polygonArea_shoelace shoelace_unit_square)

text \<open>
  Of the exact reading only: polygonArea returns the absolute value of half the
  shoelace sum over consecutive vertex pairs; the result is non-negative, does not
  depend on the vertex the sequence starts at (any rotation of the vertex list) nor on
  the winding direction (the reversed list), and the unit square has area 1 from every
  starting vertex in both directions. The program accumulates in a \<open>float\<close>, and there
  the sum depends on the order of its terms: the unit-area square with corners
  (10000,10000), (10001,10000), (10001,10001), (10000,10001) comes out as 0, and as 0.5
  from some starting vertices of the reversed list.
\<close>

lemma polygonArea_shoelace_invariant:
  "polygonArea (Polygon vs) = \<bar>shoelace_sum vs / 2\<bar>
   \<and> 0 \<le> polygonArea (Polygon vs)
   \<and> polygonArea (Polygon (rotate k vs)) = polygonArea (Polygon vs)
   \<and> polygonArea (Polygon (rev vs)) = polygonArea (Polygon vs)
   \<and> polygonArea (Polygon (rotate k unit_square)) = 1
   \<and> polygonArea (Polygon (rotate k (rev unit_square))) = 1"
proof (intro conjI)
  show "polygonArea (Polygon vs) = \<bar>shoelace_sum vs / 2\<bar>"
    by (rule polygonArea_shoelace)
  show "0 \<le> polygonArea (Polygon vs)"
    by (rule polygonArea_nonneg)
  show "polygonArea (Polygon (rotate k vs)) = polygonArea (Polygon vs)"
    by (rule polygonArea_rotate)
  show "polygonArea (Polygon (rev vs)) = polygonArea (Polygon vs)"
    by (rule polygonArea_rev)
  show "polygonArea (Polygon (rotate k unit_square)) = 1"
    by (simp only: polygonArea_rotate polygonArea_unit_square)
  show "polygonArea (Polygon (rotate k (rev unit_square))) = 1"
    by (simp only: polygonArea_rotate polygonArea_rev polygonArea_unit_square)
qed

subsection \<open>linesIntersect on collinear segments\<close>

text \<open>
  C1. The claim has collinear but disjoint segments return false. On the segments
  (0,0)-(1,0) and (2,0)-(3,0) all four cross products vanish, both products are
  \<open>0 \<le> 0\<close>, and linesIntersect returns true although no point lies on both segments.
\<close>

theorem linesIntersect_collinear_apart:
  "linesIntersect collinear_apart_A collinear_apart_B
   \<and> \<not> segments_meet collinear_apart_A collinear_apart_B"
proof
  show "linesIntersect collinear_apart_A collinear_apart_B"
    by (simp add: linesIntersect_def crossProduct_def collinear_apart_A_def
        collinear_apart_B_def)
  show "\<not> segments_meet collinear_apart_A collinear_apart_B"
  proof
    assume "segments_meet collinear_apart_A collinear_apart_B"
    then obtain P s t where "0 \<le> s" "s \<le> 1" "getX P = s" "0 \<le> t" "t \<le> 1" "getX P = 2 + t"
      unfolding segments_meet_def on_segment_def collinear_apart_A_def collinear_apart_B_def
      by auto
    then show False by linarith
  qed
qed

text \<open>
  Of the exact reading only, what linesIntersect decides in general: it is true exactly
  when the segments share a point or all four cross products vanish, so that it is
  wrong only on collinear segments that do not overlap.
\<close>

lemma opposite_sides:
  fixes c d s :: real
  assumes "0 \<le> s" "s \<le> 1" "(1 - s) * c + s * d = 0"
  shows "c * d \<le> 0"
proof -
  have e1: "(1 - s) * c = - (s * d)" and e2: "s * d = - ((1 - s) * c)"
    using assms(3) by linarith+
  have "(1 - s) * (c * d) = ((1 - s) * c) * d" by simp
  also have "\<dots> = - (s * (d * d))" by (simp only: e1) simp
  finally have a: "(1 - s) * (c * d) \<le> 0" using assms(1) by simp
  have "s * (c * d) = (s * d) * c" by simp
  also have "\<dots> = - ((1 - s) * (c * c))" by (simp only: e2) simp
  finally have b: "s * (c * d) \<le> 0" using assms(2) by simp
  have "c * d = (1 - s) * (c * d) + s * (c * d)" by (simp add: algebra_simps)
  with a b show ?thesis by linarith
qed

lemma segments_meet_linesIntersect:
  assumes "segments_meet A B"
  shows "linesIntersect A B"
proof -
  obtain A1 A2 B1 B2 where A: "A = (A1, A2)" and B: "B = (B1, B2)"
    by (cases A; cases B) auto
  from assms obtain P t s where t: "0 \<le> t" "t \<le> 1" and s: "0 \<le> s" "s \<le> 1"
    and xa: "getX P = getX A1 + t * (getX A2 - getX A1)"
    and ya: "getY P = getY A1 + t * (getY A2 - getY A1)"
    and xb: "getX P = getX B1 + s * (getX B2 - getX B1)"
    and yb: "getY P = getY B1 + s * (getY B2 - getY B1)"
    unfolding segments_meet_def on_segment_def A B by auto
  have ex: "getX B1 + s * (getX B2 - getX B1) - getX A1 = t * (getX A2 - getX A1)"
    using xa xb by linarith
  have ey: "getY B1 + s * (getY B2 - getY B1) - getY A1 = t * (getY A2 - getY A1)"
    using ya yb by linarith
  have fx: "getX A1 + t * (getX A2 - getX A1) - getX B1 = s * (getX B2 - getX B1)"
    using xa xb by linarith
  have fy: "getY A1 + t * (getY A2 - getY A1) - getY B1 = s * (getY B2 - getY B1)"
    using ya yb by linarith
  have "(1 - s) * crossProduct A1 B1 A2 + s * crossProduct A1 B2 A2
          = (getX B1 + s * (getX B2 - getX B1) - getX A1) * (getY A2 - getY A1)
            - (getY B1 + s * (getY B2 - getY B1) - getY A1) * (getX A2 - getX A1)"
    by (simp add: crossProduct_def algebra_simps)
  also have "\<dots> = 0" by (simp only: ex ey) (simp add: algebra_simps)
  finally have c12: "crossProduct A1 B1 A2 * crossProduct A1 B2 A2 \<le> 0"
    by (rule opposite_sides [OF s])
  have "(1 - t) * crossProduct B1 A1 B2 + t * crossProduct B1 A2 B2
          = (getX A1 + t * (getX A2 - getX A1) - getX B1) * (getY B2 - getY B1)
            - (getY A1 + t * (getY A2 - getY A1) - getY B1) * (getX B2 - getX B1)"
    by (simp add: crossProduct_def algebra_simps)
  also have "\<dots> = 0" by (simp only: fx fy) (simp add: algebra_simps)
  finally have c34: "crossProduct B1 A1 B2 * crossProduct B1 A2 B2 \<le> 0"
    by (rule opposite_sides [OF t])
  from c12 c34 show ?thesis by (simp add: linesIntersect_def A B)
qed

lemma ratio_in_unit:
  fixes c d :: real
  assumes "c * d \<le> 0" "c \<noteq> d"
  shows "0 \<le> c / (c - d) \<and> c / (c - d) \<le> 1"
proof -
  consider "c = 0" | "0 < c" | "c < 0" by linarith
  then show ?thesis
  proof cases
    case 1
    then show ?thesis by simp
  next
    case 2
    have "d \<le> 0"
    proof (rule ccontr)
      assume "\<not> d \<le> 0"
      with 2 have "0 < c * d" by simp
      with assms(1) show False by simp
    qed
    with 2 have "0 < c - d" by linarith
    then show ?thesis using 2 \<open>d \<le> 0\<close> by (simp add: field_simps)
  next
    case 3
    have "0 \<le> d"
    proof (rule ccontr)
      assume "\<not> 0 \<le> d"
      with 3 have "0 < c * d" by (simp add: mult_neg_neg)
      with assms(1) show False by simp
    qed
    with 3 have "c - d < 0" by linarith
    then show ?thesis using 3 \<open>0 \<le> d\<close> by (simp add: field_simps)
  qed
qed

lemma linesIntersect_cases:
  assumes "linesIntersect A B"
  shows "segments_meet A B \<or> all_cross_zero A B"
proof -
  obtain A1 A2 B1 B2 where A: "A = (A1, A2)" and B: "B = (B1, B2)"
    by (cases A; cases B) auto
  define c1 where "c1 = crossProduct A1 B1 A2"
  define c2 where "c2 = crossProduct A1 B2 A2"
  define c3 where "c3 = crossProduct B1 A1 B2"
  define c4 where "c4 = crossProduct B1 A2 B2"
  from assms have p12: "c1 * c2 \<le> 0" and p34: "c3 * c4 \<le> 0"
    by (simp_all add: linesIntersect_def A B c1_def c2_def c3_def c4_def)
  have D: "c3 - c4 = - (c1 - c2)"
    by (simp add: c1_def c2_def c3_def c4_def crossProduct_def algebra_simps)
  show ?thesis
  proof (cases "c1 = c2")
    case True
    with D have "c3 = c4" by simp
    with p34 have "c3 = 0" "c4 = 0" by (auto simp add: mult_le_0_iff)
    moreover from True p12 have "c1 = 0" "c2 = 0" by (auto simp add: mult_le_0_iff)
    ultimately have "all_cross_zero A B"
      by (simp add: all_cross_zero_def A B c1_def c2_def c3_def c4_def)
    then show ?thesis by simp
  next
    case False
    then have ne34: "c3 \<noteq> c4" using D by auto
    define t where "t = c3 / (c3 - c4)"
    define s where "s = c1 / (c1 - c2)"
    have t: "0 \<le> t \<and> t \<le> 1" unfolding t_def by (rule ratio_in_unit [OF p34 ne34])
    have s: "0 \<le> s \<and> s \<le> 1" unfolding s_def by (rule ratio_in_unit [OF p12 False])
    define P where "P = Cartesian (getX A1 + t * (getX A2 - getX A1)) (getY A1 + t * (getY A2 - getY A1))"
    have kx: "c3 * (getX A2 - getX A1) + c1 * (getX B2 - getX B1) = (c1 - c2) * (getX A1 - getX B1)"
      by (simp add: c1_def c2_def c3_def crossProduct_def algebra_simps)
    have ky: "c3 * (getY A2 - getY A1) + c1 * (getY B2 - getY B1) = (c1 - c2) * (getY A1 - getY B1)"
      by (simp add: c1_def c2_def c3_def crossProduct_def algebra_simps)
    have nz: "c1 - c2 \<noteq> 0" using False by simp
    have t': "t = - c3 / (c1 - c2)"
    proof -
      have "t = c3 / (- (c1 - c2))" by (simp only: t_def D)
      also have "\<dots> = - c3 / (c1 - c2)" by (simp only: divide_minus_right minus_divide_left)
      finally show ?thesis .
    qed
    have dt: "(c1 - c2) * t = - c3" using nz by (simp add: t')
    have ds: "(c1 - c2) * s = c1" using nz by (simp add: s_def)
    have px: "getX A1 + t * (getX A2 - getX A1) = getX B1 + s * (getX B2 - getX B1)"
    proof -
      have "(c1 - c2) * (getX A1 + t * (getX A2 - getX A1))
              = (c1 - c2) * getX A1 + ((c1 - c2) * t) * (getX A2 - getX A1)"
        by (simp add: algebra_simps)
      also have "\<dots> = (c1 - c2) * getX A1 - c3 * (getX A2 - getX A1)"
        by (simp only: dt minus_mult_left [symmetric] add_uminus_conv_diff)
      also have "\<dots> = (c1 - c2) * getX B1 + c1 * (getX B2 - getX B1)"
        using kx by (simp add: algebra_simps)
      also have "\<dots> = (c1 - c2) * getX B1 + ((c1 - c2) * s) * (getX B2 - getX B1)"
        by (simp only: ds)
      also have "\<dots> = (c1 - c2) * (getX B1 + s * (getX B2 - getX B1))"
        by (simp add: algebra_simps)
      finally show ?thesis using nz by simp
    qed
    have py: "getY A1 + t * (getY A2 - getY A1) = getY B1 + s * (getY B2 - getY B1)"
    proof -
      have "(c1 - c2) * (getY A1 + t * (getY A2 - getY A1))
              = (c1 - c2) * getY A1 + ((c1 - c2) * t) * (getY A2 - getY A1)"
        by (simp add: algebra_simps)
      also have "\<dots> = (c1 - c2) * getY A1 - c3 * (getY A2 - getY A1)"
        by (simp only: dt minus_mult_left [symmetric] add_uminus_conv_diff)
      also have "\<dots> = (c1 - c2) * getY B1 + c1 * (getY B2 - getY B1)"
        using ky by (simp add: algebra_simps)
      also have "\<dots> = (c1 - c2) * getY B1 + ((c1 - c2) * s) * (getY B2 - getY B1)"
        by (simp only: ds)
      also have "\<dots> = (c1 - c2) * (getY B1 + s * (getY B2 - getY B1))"
        by (simp add: algebra_simps)
      finally show ?thesis using nz by simp
    qed
    have "on_segment P A" unfolding on_segment_def A using t by (auto simp add: P_def)
    moreover have "on_segment P B" unfolding on_segment_def B using s px py by (auto simp add: P_def)
    ultimately show ?thesis unfolding segments_meet_def by blast
  qed
qed

lemma linesIntersect_characterisation:
  "linesIntersect A B \<longleftrightarrow> segments_meet A B \<or> all_cross_zero A B"
proof
  assume "linesIntersect A B"
  then show "segments_meet A B \<or> all_cross_zero A B" by (rule linesIntersect_cases)
next
  assume "segments_meet A B \<or> all_cross_zero A B"
  then show "linesIntersect A B"
  proof
    assume "segments_meet A B"
    then show ?thesis by (rule segments_meet_linesIntersect)
  next
    assume "all_cross_zero A B"
    then show ?thesis by (simp add: all_cross_zero_def linesIntersect_def)
  qed
qed

subsection \<open>getIntersectionPoint\<close>

text \<open>
  C3. getIntersectionPoint reports the precondition failure, and returns no point,
  exactly when linesIntersect is false; when linesIntersect holds it does not fail and
  returns its point (whose coordinates are non-finite when a division by zero occurred).
\<close>

theorem getIntersectionPoint_fails_iff:
  "(getIntersectionPoint A B = Inl PreconditionFailure \<longleftrightarrow> \<not> linesIntersect A B)
   \<and> (\<not> linesIntersect A B \<longrightarrow> (\<forall>p. getIntersectionPoint A B \<noteq> Inr p))
   \<and> (linesIntersect A B \<longrightarrow> (\<exists>p. getIntersectionPoint A B = Inr p))"
proof (cases "linesIntersect A B")
  case True
  then have "\<exists>p. getIntersectionPoint A B = Inr p"
    by (simp add: getIntersectionPoint_def ASSERT_def Let_def)
  with True show ?thesis by auto
next
  case False
  then have "getIntersectionPoint A B = Inl PreconditionFailure"
    by (simp add: getIntersectionPoint_def ASSERT_def)
  with False show ?thesis by simp
qed

lemma linesIntersect_crossing: "linesIntersect crossing_A crossing_B"
  by (simp add: linesIntersect_def crossProduct_def crossing_A_def crossing_B_def)

lemma linesIntersect_parallel:
  "\<not> linesIntersect (Cartesian 0 0, Cartesian 1 0) (Cartesian 0 1, Cartesian 1 1)"
  by (simp add: linesIntersect_def crossProduct_def)

theorem getIntersectionPoint_fails_iff_witness:
  "linesIntersect crossing_A crossing_B
   \<and> (\<exists>p. getIntersectionPoint crossing_A crossing_B = Inr p)
   \<and> \<not> linesIntersect (Cartesian 0 0, Cartesian 1 0) (Cartesian 0 1, Cartesian 1 1)
   \<and> getIntersectionPoint (Cartesian 0 0, Cartesian 1 0) (Cartesian 0 1, Cartesian 1 1)
       = Inl PreconditionFailure"
  using getIntersectionPoint_fails_iff [of crossing_A crossing_B]
        getIntersectionPoint_fails_iff
          [of "(Cartesian 0 0, Cartesian 1 0)" "(Cartesian 0 1, Cartesian 1 1)"]
        linesIntersect_crossing linesIntersect_parallel
  by blast

text \<open>
  Of the exact reading only: the segments (0,0)-(1,1) and (0,1)-(1,0) intersect, and
  getIntersectionPoint returns the point (0.5, 0.5) for them; the rotation uses
  \<open>1 / sqrt 2\<close> for both the cosine and the sine, and \<open>ABpos = 1 / sqrt 2\<close>. The program
  rounds the square root and the quotients to \<open>float\<close>, and the product of the rounded
  \<open>ABpos\<close> and cosine is 16777215/33554432, the \<open>float\<close> next below 0.5, in both
  coordinates. That the segments intersect is exact in the program as well.
\<close>

lemma getIntersectionPoint_crossing_diagonals:
  "linesIntersect crossing_A crossing_B
   \<and> getIntersectionPoint crossing_A crossing_B = Inr (Finite_Point (Cartesian (1 / 2) (1 / 2)))"
proof
  show li: "linesIntersect crossing_A crossing_B"
    by (rule linesIntersect_crossing)
  have s0: "sqrt 2 \<noteq> 0" by simp
  have ss: "1 / sqrt 2 * (1 / sqrt 2) = 1 / 2"
    by (simp add: field_simps)
  have ne: "- (1 / sqrt 2) - 1 / sqrt 2 \<noteq> 0"
  proof -
    have "0 < 1 / sqrt 2" by simp
    then show ?thesis by linarith
  qed
  have "linesIntersect (Cartesian 0 0, Cartesian 1 1) (Cartesian 0 1, Cartesian 1 0)"
    using li by (simp only: crossing_A_def crossing_B_def)
  then show "getIntersectionPoint crossing_A crossing_B
               = Inr (Finite_Point (Cartesian (1 / 2) (1 / 2)))"
    unfolding getIntersectionPoint_def ASSERT_def crossing_A_def crossing_B_def
    using s0 ss ne
    by (simp add: Let_def del: real_sqrt_eq_zero_cancel_iff)
qed


subsection \<open>centroid\<close>

lemma centroid_loop_step:
  "i < length vs \<Longrightarrow>
   centroid_loop vs i (cx, cy)
     = centroid_loop vs (Suc i) (cx + centroid_term_x vs i, cy + centroid_term_y vs i)"
  by (subst centroid_loop.simps) (simp add: Let_def centroid_term_x_def centroid_term_y_def)

lemma centroid_loop_exit: "\<not> i < length vs \<Longrightarrow> centroid_loop vs i (cx, cy) = (cx, cy)"
  by (subst centroid_loop.simps) simp

lemma centroid_loop_sum:
  "centroid_loop vs i (cx, cy) =
     (cx + (\<Sum>k = i..<length vs. centroid_term_x vs k),
      cy + (\<Sum>k = i..<length vs. centroid_term_y vs k))"
proof (induction "length vs - i" arbitrary: i cx cy)
  case 0
  then show ?case by (simp add: centroid_loop_exit)
next
  case (Suc d)
  then have lt: "i < length vs" and d: "d = length vs - Suc i" by auto
  show ?case
    by (simp add: centroid_loop_step [OF lt] Suc.hyps(1) [OF d] sum.atLeast_Suc_lessThan [OF lt])
qed

lemma centroid_formula_loop:
  "centroid_formula vs =
     Cartesian (1 / (6 * signed_area vs) * fst (centroid_loop vs 0 (0, 0)))
               (1 / (6 * signed_area vs) * snd (centroid_loop vs 0 (0, 0)))"
  by (simp add: centroid_formula_def centroid_loop_sum Let_def lessThan_atLeast0
      centroid_term_x_def centroid_term_y_def)

lemma centroid_loop_left_square: "centroid_loop left_square 0 (0, 0) = (-9, 3)"
  unfolding left_square_def
  by (simp add: centroid_loop.simps)

lemma polygonArea_left_square: "polygonArea (Polygon left_square) = 1"
  by (simp add: polygonArea_shoelace shoelace_sum_loop polygonArea_loop.simps left_square_def)

lemma signed_area_left_square: "signed_area left_square = 1"
  by (simp add: signed_area_def shoelace_sum_loop polygonArea_loop.simps left_square_def)

text \<open>
  Of the exact reading only, what centroid computes in general: wherever the shoelace
  area is not zero, the absolute values of the two coordinates of the area-weighted
  centroid.
\<close>

lemma centroid_abs_formula:
  assumes "shoelace_sum vs \<noteq> 0"
  shows "centroid (Polygon vs)
           = Finite_Point (Cartesian \<bar>getX (centroid_formula vs)\<bar> \<bar>getY (centroid_formula vs)\<bar>)"
proof -
  have area: "polygonArea (Polygon vs) * 6 = \<bar>6 * signed_area vs\<bar>"
    by (simp add: polygonArea_shoelace signed_area_def)
  have nz: "polygonArea (Polygon vs) * 6 \<noteq> 0"
    using assms by (simp add: polygonArea_shoelace)
  obtain sx sy where l: "centroid_loop vs 0 (0, 0) = (sx, sy)"
    by (cases "centroid_loop vs 0 (0, 0)") auto
  have "centroid (Polygon vs)
          = Finite_Point (Cartesian (\<bar>sx\<bar> / (polygonArea (Polygon vs) * 6))
                                    (\<bar>sy\<bar> / (polygonArea (Polygon vs) * 6)))"
    using nz by (simp add: centroid_def l Let_def)
  then have "centroid (Polygon vs)
          = Finite_Point (Cartesian (\<bar>sx\<bar> / \<bar>6 * signed_area vs\<bar>) (\<bar>sy\<bar> / \<bar>6 * signed_area vs\<bar>))"
    by (simp only: area)
  moreover have "\<bar>sx\<bar> / \<bar>6 * signed_area vs\<bar> = \<bar>getX (centroid_formula vs)\<bar>"
    by (simp add: centroid_formula_loop l abs_mult)
  moreover have "\<bar>sy\<bar> / \<bar>6 * signed_area vs\<bar> = \<bar>getY (centroid_formula vs)\<bar>"
    by (simp add: centroid_formula_loop l abs_mult)
  ultimately show ?thesis by simp
qed

lemma centroid_formula_nonneg:
  assumes "shoelace_sum vs \<noteq> 0"
    and "0 \<le> getX (centroid_formula vs)" "0 \<le> getY (centroid_formula vs)"
  shows "centroid (Polygon vs) = Finite_Point (centroid_formula vs)"
  using centroid_abs_formula [OF assms(1)] assms(2,3) by simp

text \<open>
  C6. The claim has centroid return the area-weighted centroid. For the unit square
  with corners (-2,0), (-1,0), (-1,1), (-2,1) the formula gives (-1.5, 0.5); centroid
  takes the absolute value of both accumulated sums and returns (1.5, 0.5).
\<close>

theorem centroid_left_square:
  "centroid (Polygon left_square) = Finite_Point (Cartesian (3 / 2) (1 / 2))
   \<and> centroid_formula left_square = Cartesian (- 3 / 2) (1 / 2)"
proof
  show "centroid (Polygon left_square) = Finite_Point (Cartesian (3 / 2) (1 / 2))"
    by (simp add: centroid_def centroid_loop_left_square polygonArea_left_square)
  show "centroid_formula left_square = Cartesian (- 3 / 2) (1 / 2)"
    by (simp add: centroid_formula_loop centroid_loop_left_square signed_area_left_square)
qed

subsection \<open>convexHull: the geometry of left turns\<close>

lemma lexle_iff:
  "lexle p q \<longleftrightarrow> getX p < getX q \<or> (getX p = getX q \<and> getY p \<le> getY q)"
  by (auto simp add: lexle_def coords_def less_eq_prod_def)

lemma cone_nonneg:
  fixes a b c u1 u2 w1 w2 v1 v2 :: real
  assumes a: "0 \<le> a" and b: "0 \<le> b"
    and u: "0 < u1 \<or> (u1 = 0 \<and> 0 \<le> u2)"
    and w: "0 < w1 \<or> (w1 = 0 \<and> 0 \<le> w2)"
    and v: "0 < v1 \<or> (v1 = 0 \<and> 0 < v2)"
    and e1: "c * v1 = a * u1 + b * w1"
    and e2: "c * v2 = a * u2 + b * w2"
  shows "0 \<le> c"
proof (rule ccontr)
  assume "\<not> 0 \<le> c"
  then have c: "c < 0" by simp
  have au1: "0 \<le> a * u1" using a u by auto
  have bw1: "0 \<le> b * w1" using b w by auto
  show False
  proof (cases "0 < v1")
    case True
    then have "c * v1 < 0" using c by (simp add: mult_neg_pos)
    with e1 au1 bw1 show False by linarith
  next
    case False
    with v have v1: "v1 = 0" and v2: "0 < v2" by auto
    from e1 v1 have "a * u1 + b * w1 = 0" by simp
    with au1 bw1 have z: "a * u1 = 0" "b * w1 = 0" by linarith+
    have au2: "0 \<le> a * u2"
    proof (cases "a = 0")
      case True then show ?thesis by simp
    next
      case False
      with z have "u1 = 0" by simp
      with u have "0 \<le> u2" by simp
      with a show ?thesis by simp
    qed
    have bw2: "0 \<le> b * w2"
    proof (cases "b = 0")
      case True then show ?thesis by simp
    next
      case False
      with z have "w1 = 0" by simp
      with w have "0 \<le> w2" by simp
      with b show ?thesis by simp
    qed
    have "c * v2 < 0" using c v2 by (simp add: mult_neg_pos)
    with e2 au2 bw2 show False by linarith
  qed
qed

lemma cone_pos:
  fixes a b c u1 u2 w1 w2 v1 v2 :: real
  assumes a: "0 < a" and b: "0 \<le> b"
    and u: "0 < u1 \<or> (u1 = 0 \<and> 0 < u2)"
    and w: "0 < w1 \<or> (w1 = 0 \<and> 0 \<le> w2)"
    and v: "0 < v1 \<or> (v1 = 0 \<and> 0 < v2)"
    and e1: "c * v1 = a * u1 + b * w1"
    and e2: "c * v2 = a * u2 + b * w2"
  shows "0 < c"
proof -
  have "0 \<le> c"
    using cone_nonneg [of a b u1 u2 w1 w2 v1 v2 c] a b u w v e1 e2 by auto
  moreover have "c \<noteq> 0"
  proof
    assume c0: "c = 0"
    have bw1: "0 \<le> b * w1" using b w by auto
    show False
    proof (cases "0 < u1")
      case True
      then have "0 < a * u1" using a by simp
      with e1 c0 bw1 show False by simp
    next
      case False
      with u have u1: "u1 = 0" and u2: "0 < u2" by auto
      from e1 c0 u1 have "b * w1 = 0" by simp
      have bw2: "0 \<le> b * w2"
      proof (cases "b = 0")
        case True then show ?thesis by simp
      next
        case False
        with \<open>b * w1 = 0\<close> have "w1 = 0" by simp
        with w have "0 \<le> w2" by simp
        with b show ?thesis by simp
      qed
      have "0 < a * u2" using a u2 by simp
      with e2 c0 bw2 show False by simp
    qed
  qed
  ultimately show ?thesis by simp
qed

lemma lexle_refl [simp]: "lexle p p"
  by (simp add: lexle_def)

lemma lexle_trans: "lexle p q \<Longrightarrow> lexle q r \<Longrightarrow> lexle p r"
  by (simp add: lexle_def)

lemma lexle_antisym: "lexle p q \<Longrightarrow> lexle q p \<Longrightarrow> p = q"
  by (cases p; cases q) (auto simp add: lexle_iff)

lemma lexle_total: "lexle p q \<or> lexle q p"
  by (auto simp add: lexle_iff)

lemma crossProduct_same [simp]:
  "crossProduct a a b = 0" "crossProduct a b b = 0" "crossProduct a b a = 0"
  by (simp_all add: crossProduct_def)

lemma halfplane_trans:
  fixes u1 u2 v1 v2 w1 w2 :: real
  assumes u: "0 < u1 \<or> (u1 = 0 \<and> 0 \<le> u2)"
    and v: "0 < v1 \<or> (v1 = 0 \<and> 0 < v2)"
    and w: "0 < w1 \<or> (w1 = 0 \<and> 0 \<le> w2)"
    and uv: "0 \<le> u1 * v2 - u2 * v1"
    and vw: "0 \<le> v1 * w2 - v2 * w1"
  shows "0 \<le> u1 * w2 - u2 * w1"
proof -
  have e1: "(u1 * w2 - u2 * w1) * v1 = (u1 * v2 - u2 * v1) * w1 + (v1 * w2 - v2 * w1) * u1"
    by (simp add: algebra_simps)
  have e2: "(u1 * w2 - u2 * w1) * v2 = (u1 * v2 - u2 * v1) * w2 + (v1 * w2 - v2 * w1) * u2"
    by (simp add: algebra_simps)
  show ?thesis
    by (rule cone_nonneg [OF uv vw w u v e1 e2])
qed

lemma halfplane_trans_strict:
  fixes u1 u2 v1 v2 w1 w2 :: real
  assumes u: "0 < u1 \<or> (u1 = 0 \<and> 0 \<le> u2)"
    and v: "0 < v1 \<or> (v1 = 0 \<and> 0 \<le> v2)"
    and w: "0 < w1 \<or> (w1 = 0 \<and> 0 \<le> w2)"
    and uv: "0 < u1 * v2 - u2 * v1"
    and vw: "0 < v1 * w2 - v2 * w1"
  shows "0 < u1 * w2 - u2 * w1"
proof -
  have e1: "(u1 * w2 - u2 * w1) * v1 = (u1 * v2 - u2 * v1) * w1 + (v1 * w2 - v2 * w1) * u1"
    by (simp add: algebra_simps)
  have e2: "(u1 * w2 - u2 * w1) * v2 = (u1 * v2 - u2 * v1) * w2 + (v1 * w2 - v2 * w1) * u2"
    by (simp add: algebra_simps)
  have v': "0 < v1 \<or> (v1 = 0 \<and> 0 < v2)"
    using v uv by (cases "v2 = 0") auto
  have w': "0 < w1 \<or> (w1 = 0 \<and> 0 < w2)"
    using w vw by (cases "w2 = 0") auto
  have vw0: "0 \<le> v1 * w2 - v2 * w1" using vw by simp
  show ?thesis
    by (rule cone_pos [OF uv vw0 w' u v' e1 e2])
qed

text \<open>
  The differences of the coordinates of two points, and what the lexicographic order
  says about them.
\<close>

lemma lexle_diff:
  "lexle p q \<Longrightarrow> 0 < getX q - getX p \<or> (getX q - getX p = 0 \<and> 0 \<le> getY q - getY p)"
  by (auto simp add: lexle_iff)

lemma lexle_diff_strict:
  "lexle p q \<Longrightarrow> p \<noteq> q \<Longrightarrow> 0 < getX q - getX p \<or> (getX q - getX p = 0 \<and> 0 < getY q - getY p)"
  by (cases p; cases q) (auto simp add: lexle_iff)

text \<open>A left turn at b towards c and at c towards p is a left turn at b towards p.\<close>

lemma turn_transitive:
  assumes "lexle a b" "lexle b c" "lexle b p"
    and "0 < crossProduct a b c" "0 < crossProduct b c p"
  shows "0 < crossProduct a b p"
proof -
  have "0 < (getX b - getX a) * (getY p - getY b) - (getY b - getY a) * (getX p - getX b)"
  proof (rule halfplane_trans_strict [OF lexle_diff [OF assms(1)] lexle_diff [OF assms(2)]
        lexle_diff [OF assms(3)]])
    show "0 < (getX b - getX a) * (getY c - getY b) - (getY b - getY a) * (getX c - getX b)"
      using assms(4) by (simp add: crossProduct_def algebra_simps)
    show "0 < (getX c - getX b) * (getY p - getY b) - (getY c - getY b) * (getX p - getX b)"
      using assms(5) by (simp add: crossProduct_def algebra_simps)
  qed
  then show ?thesis by (simp add: crossProduct_def algebra_simps)
qed

text \<open>
  The new edge from the top b to p keeps an earlier point q on its left, when q was on
  the left of the edge from a to b and p turns left there.
\<close>

lemma new_edge_covers_earlier:
  assumes "lexle a b" "lexle q b" "lexle b p"
    and "0 \<le> crossProduct a b q" "0 < crossProduct a b p"
  shows "0 \<le> crossProduct b p q"
proof -
  have ab: "a \<noteq> b" using assms(5) by auto
  have "0 \<le> (getX b - getX q) * (getY p - getY b) - (getY b - getY q) * (getX p - getX b)"
  proof (rule halfplane_trans [OF lexle_diff [OF assms(2)] lexle_diff_strict [OF assms(1) ab]
        lexle_diff [OF assms(3)]])
    show "0 \<le> (getX b - getX q) * (getY b - getY a) - (getY b - getY q) * (getX b - getX a)"
      using assms(4) by (simp add: crossProduct_def algebra_simps)
    show "0 \<le> (getX b - getX a) * (getY p - getY b) - (getY b - getY a) * (getX p - getX b)"
      using assms(5) by (simp add: crossProduct_def algebra_simps)
  qed
  then show ?thesis by (simp add: crossProduct_def algebra_simps)
qed

text \<open>
  Popping t, which is not a left turn from b towards p: a point q between t and p that
  is on the left of the edge from t to p is on the left of the edge from b to p.
\<close>

lemma pop_keeps_later:
  assumes "lexle b t" "lexle t q" "lexle q p"
    and "crossProduct b t p \<le> 0" "0 \<le> crossProduct t p q"
  shows "0 \<le> crossProduct b p q"
proof (cases "t = p")
  case True
  with assms(2,3) have "q = p" by (simp add: lexle_antisym)
  then show ?thesis by simp
next
  case False
  have tp: "lexle t p" using assms(2,3) by (rule lexle_trans)
  have bp: "lexle b p" using assms(1) tp by (rule lexle_trans)
  have "0 \<le> (getX p - getX q) * (getY p - getY b) - (getY p - getY q) * (getX p - getX b)"
  proof (rule halfplane_trans [OF lexle_diff [OF assms(3)] lexle_diff_strict [OF tp False]
        lexle_diff [OF bp]])
    show "0 \<le> (getX p - getX q) * (getY p - getY t) - (getY p - getY q) * (getX p - getX t)"
      using assms(5) by (simp add: crossProduct_def algebra_simps)
    show "0 \<le> (getX p - getX t) * (getY p - getY b) - (getY p - getY t) * (getX p - getX b)"
      using assms(4) by (simp add: crossProduct_def algebra_simps)
  qed
  then show ?thesis by (simp add: crossProduct_def algebra_simps)
qed

text \<open>
  Popping t: a point q between b and t that is on the left of the edge from b to t is
  on the left of the edge from b to p.
\<close>

lemma pop_keeps_covered:
  assumes "lexle b q" "lexle q t" "lexle b p"
    and "0 \<le> crossProduct b t q" "crossProduct b t p \<le> 0"
  shows "0 \<le> crossProduct b p q"
proof (cases "b = t")
  case True
  with assms(1,2) have "q = b" by (simp add: lexle_antisym)
  then show ?thesis by simp
next
  case False
  have bt: "lexle b t" using assms(1,2) by (rule lexle_trans)
  have "0 \<le> (getX p - getX b) * (getY q - getY b) - (getY p - getY b) * (getX q - getX b)"
  proof (rule halfplane_trans [OF lexle_diff [OF assms(3)] lexle_diff_strict [OF bt False]
        lexle_diff [OF assms(1)]])
    show "0 \<le> (getX p - getX b) * (getY t - getY b) - (getY p - getY b) * (getX t - getX b)"
      using assms(5) by (simp add: crossProduct_def algebra_simps)
    show "0 \<le> (getX t - getX b) * (getY q - getY b) - (getY t - getY b) * (getX q - getX b)"
      using assms(4) by (simp add: crossProduct_def algebra_simps)
  qed
  then show ?thesis by (simp add: crossProduct_def algebra_simps)
qed

subsection \<open>convexHull: the invariant of one pass\<close>

lemma pops_suffix: "\<exists>pre. st = pre @ pops st p"
proof (induction st p rule: pops.induct)
  case (1 t b st p)
  show ?case
  proof (cases "crossProduct b t p \<le> 0")
    case True
    with 1 obtain pre where "b # st = pre @ pops (b # st) p" by auto
    then have "t # b # st = (t # pre) @ pops (t # b # st) p" using True by simp
    then show ?thesis by blast
  next
    case False
    then show ?thesis by auto
  qed
qed auto

lemma pops_nonempty: "st \<noteq> [] \<Longrightarrow> pops st p \<noteq> []"
  by (induction st p rule: pops.induct) auto

lemma pops_last: "st \<noteq> [] \<Longrightarrow> last (pops st p) = last st"
  by (induction st p rule: pops.induct) auto

lemma pops_length: "length (pops st p) \<le> length st"
  by (induction st p rule: pops.induct) auto

lemma pops_exit: "pops st p = t # b # rest \<Longrightarrow> 0 < crossProduct b t p"
  by (induction st p rule: pops.induct) (auto split: if_splits)

lemma turns_suffix: "turns (pre @ st) \<Longrightarrow> turns st"
proof (induction pre)
  case (Cons x pre)
  then have "turns (pre @ st)"
    by (cases "pre @ st" rule: turns.cases) auto
  with Cons.IH show ?case by simp
qed simp

lemma covers_suffix: "covers Q (pre @ st) \<Longrightarrow> covers Q st"
proof (induction pre)
  case (Cons x pre)
  then have "covers Q (pre @ st)"
    by (cases "pre @ st") auto
  with Cons.IH show ?case by simp
qed simp

lemma covers_tl: "covers Q (x # st) \<Longrightarrow> covers Q st"
  using covers_suffix [of Q "[x]" st] by simp

lemma turns_tl: "turns (x # st) \<Longrightarrow> turns st"
  using turns_suffix [of "[x]" st] by simp

text \<open>While popping, the points from the top onwards stay on the left of the edge to p.\<close>

lemma pops_pending:
  assumes "sorted_wrt (\<lambda>x y. lexle y x) st" "covers Q st" "set st \<subseteq> Q"
    and "\<forall>q\<in>Q. lexle q p" "pending Q st p" "st \<noteq> []"
  shows "pending Q (pops st p) p"
  using assms
proof (induction st p rule: pops.induct)
  case (1 t b st p)
  show ?case
  proof (cases "crossProduct b t p \<le> 0")
    case True
    have bt: "lexle b t" using "1.prems"(1) by simp
    have bQ: "b \<in> Q" and tQ: "t \<in> Q" using "1.prems"(3) by auto
    have bp: "lexle b p" using bQ "1.prems"(4) by blast
    have cov: "\<forall>q\<in>Q. 0 \<le> crossProduct b t q" using "1.prems"(2) by simp
    have "pending Q (b # st) p"
      unfolding pending_def
    proof (intro ballI impI)
      fix q assume q: "q \<in> Q" and bq: "lexle (hd (b # st)) q"
      then have bq': "lexle b q" by simp
      have qp: "lexle q p" using q "1.prems"(4) by blast
      show "0 \<le> crossProduct (hd (b # st)) p q"
      proof (cases "lexle t q")
        case True
        then have "0 \<le> crossProduct t p q"
          using "1.prems"(5) q by (simp add: pending_def)
        from pop_keeps_later [OF bt True qp \<open>crossProduct b t p \<le> 0\<close> this]
        show ?thesis by simp
      next
        case False
        then have qt: "lexle q t" using lexle_total by blast
        from pop_keeps_covered [OF bq' qt bp _ \<open>crossProduct b t p \<le> 0\<close>] cov q
        show ?thesis by simp
      qed
    qed
    moreover have "sorted_wrt (\<lambda>x y. lexle y x) (b # st)" using "1.prems"(1) by simp
    moreover have "covers Q (b # st)" using "1.prems"(2) by simp
    moreover have "set (b # st) \<subseteq> Q" using "1.prems"(3) by simp
    ultimately have "pending Q (pops (b # st) p) p"
      using "1.IH" [OF True] "1.prems"(4) by simp
    with True show ?thesis by simp
  next
    case False
    with "1.prems"(5) show ?thesis by simp
  qed
qed auto

lemma covers_insertI: "covers {p} st \<Longrightarrow> covers Q st \<Longrightarrow> covers (insert p Q) st"
  by (induction Q st rule: covers.induct) auto

lemma turns_cover_new:
  assumes "sorted_wrt (\<lambda>x y. lexle y x) (t # b # rest)" "turns (t # b # rest)"
    and "0 < crossProduct b t p" "lexle t p"
  shows "covers {p} (t # b # rest)"
  using assms
proof (induction rest arbitrary: t b)
  case Nil
  then show ?case by simp
next
  case (Cons a rest)
  have ab: "lexle a b" and bt: "lexle b t" using Cons.prems(1) by auto
  have bp: "lexle b p" using bt Cons.prems(4) by (rule lexle_trans)
  have abt: "0 < crossProduct a b t" using Cons.prems(2) by simp
  have abp: "0 < crossProduct a b p"
    by (rule turn_transitive [OF ab bt bp abt Cons.prems(3)])
  have "covers {p} (b # a # rest)"
  proof (rule Cons.IH)
    show "sorted_wrt (\<lambda>x y. lexle y x) (b # a # rest)" using Cons.prems(1) by simp
    show "turns (b # a # rest)" using Cons.prems(2) by simp
    show "0 < crossProduct a b p" by (rule abp)
    show "lexle b p" by (rule bp)
  qed
  with Cons.prems(3) show ?case by simp
qed

lemma chain_inv_push:
  assumes inv: "chain_inv Q st" and le: "\<forall>q\<in>Q. lexle q p"
  shows "chain_inv (insert p Q) (push st p)"
proof -
  from inv have ne: "st \<noteq> []" and sub: "set st \<subseteq> Q"
    and srt: "sorted_wrt (\<lambda>x y. lexle y x) st" and trn: "turns st" and cov: "covers Q st"
    and mn: "\<forall>q\<in>Q. lexle (last st) q" and mx: "\<forall>q\<in>Q. lexle q (hd st)"
    by (simp_all add: chain_inv_def)
  define st' where "st' = pops st p"
  obtain pre where pre: "st = pre @ st'"
    using pops_suffix [of st p] by (auto simp add: st'_def)
  have ne': "st' \<noteq> []" using ne by (simp add: st'_def pops_nonempty)
  have sub': "set st' \<subseteq> Q" using sub pre by auto
  have srt': "sorted_wrt (\<lambda>x y. lexle y x) st'"
    using srt pre by (simp add: sorted_wrt_append)
  have trn': "turns st'" using trn pre turns_suffix by metis
  have cov': "covers Q st'" using cov pre covers_suffix by metis
  have last': "last st' = last st" using ne by (simp add: st'_def pops_last)
  have pend0: "pending Q st p"
    unfolding pending_def
  proof (intro ballI impI)
    fix q assume "q \<in> Q" "lexle (hd st) q"
    with mx have "q = hd st" by (simp add: lexle_antisym)
    then show "0 \<le> crossProduct (hd st) p q" by simp
  qed
  have pend: "pending Q st' p"
    unfolding st'_def by (rule pops_pending [OF srt cov sub le pend0 ne])
  obtain b rest where st': "st' = b # rest" using ne' by (cases st') auto
  have bQ: "b \<in> Q" using sub' st' by simp
  have bp: "lexle b p" using bQ le by blast
  have exit: "rest \<noteq> [] \<Longrightarrow> 0 < crossProduct (hd rest) b p"
  proof -
    assume "rest \<noteq> []"
    then obtain a rest' where "rest = a # rest'" by (cases rest) auto
    with st' have "pops st p = b # a # rest'" by (simp add: st'_def)
    from pops_exit [OF this] \<open>rest = a # rest'\<close> show ?thesis by simp
  qed
  have new_edge: "0 \<le> crossProduct b p q" if q: "q \<in> Q" for q
  proof (cases "lexle b q")
    case True
    with pend q st' show ?thesis by (simp add: pending_def)
  next
    case False
    then have qb: "lexle q b" using lexle_total by blast
    show ?thesis
    proof (cases rest)
      case Nil
      with st' last' have "b = last st" by simp
      with mn q have "lexle b q" by simp
      with False show ?thesis by simp
    next
      case (Cons a rest')
      have ab: "lexle a b" using srt' st' Cons by simp
      have abq: "0 \<le> crossProduct a b q" using cov' st' Cons q by simp
      have abp: "0 < crossProduct a b p" using exit Cons by simp
      show ?thesis by (rule new_edge_covers_earlier [OF ab qb bp abq abp])
    qed
  qed
  have covp: "covers {p} st'"
  proof (cases rest)
    case Nil
    with st' show ?thesis by simp
  next
    case (Cons a rest')
    have "covers {p} (b # a # rest')"
    proof (rule turns_cover_new)
      show "sorted_wrt (\<lambda>x y. lexle y x) (b # a # rest')" using srt' st' Cons by simp
      show "turns (b # a # rest')" using trn' st' Cons by simp
      show "0 < crossProduct a b p" using exit Cons by simp
      show "lexle b p" by (rule bp)
    qed
    with st' Cons show ?thesis by simp
  qed
  have push: "push st p = p # b # rest" by (simp add: push_def st'_def [symmetric] st')
  have "set (p # b # rest) \<subseteq> insert p Q" using sub' st' by auto
  moreover have "sorted_wrt (\<lambda>x y. lexle y x) (p # b # rest)"
    using srt' st' sub' le by auto
  moreover have "turns (p # b # rest)"
  proof (cases rest)
    case Nil then show ?thesis by simp
  next
    case (Cons a rest')
    with exit trn' st' show ?thesis by simp
  qed
  moreover have "covers (insert p Q) (p # b # rest)"
  proof -
    have "\<forall>q\<in>insert p Q. 0 \<le> crossProduct b p q" using new_edge by auto
    moreover have "covers (insert p Q) (b # rest)"
      using covers_insertI [OF covp cov'] st' by simp
    ultimately show ?thesis by simp
  qed
  moreover have "\<forall>q\<in>insert p Q. lexle (last (p # b # rest)) q"
  proof -
    have l: "last (p # b # rest) = last st" using last' st' by simp
    have "last st \<in> Q" using ne sub by auto
    then have "lexle (last st) p" using le by blast
    with mn l show ?thesis by simp
  qed
  moreover have "\<forall>q\<in>insert p Q. lexle q (hd (p # b # rest))" using le by simp
  ultimately show ?thesis
    unfolding push chain_inv_def by simp
qed

lemma chain_inv_single: "chain_inv {p} [p]"
  by (simp add: chain_inv_def)

lemma chain_inv_foldl:
  assumes "chain_inv Q st" "sorted_wrt lexle ps" "\<forall>q\<in>Q. \<forall>p\<in>set ps. lexle q p"
  shows "chain_inv (Q \<union> set ps) (foldl push st ps)"
  using assms
proof (induction ps arbitrary: Q st)
  case Nil
  then show ?case by simp
next
  case (Cons p ps)
  have "chain_inv (insert p Q) (push st p)"
    by (rule chain_inv_push) (use Cons.prems in auto)
  moreover have "sorted_wrt lexle ps" using Cons.prems(2) by simp
  moreover have "\<forall>q\<in>insert p Q. \<forall>r\<in>set ps. lexle q r" using Cons.prems(2,3) by auto
  ultimately have "chain_inv (insert p Q \<union> set ps) (foldl push (push st p) ps)"
    by (rule Cons.IH)
  then show ?case by simp
qed

lemma chain_inv_scan:
  assumes "sorted_wrt lexle ps" "ps \<noteq> []"
  shows "chain_inv (set ps) (scan ps)"
proof -
  obtain p rest where ps: "ps = p # rest" using assms(2) by (cases ps) auto
  have "chain_inv ({p} \<union> set rest) (foldl push [p] rest)"
    by (rule chain_inv_foldl [OF chain_inv_single]) (use assms(1) ps in auto)
  then show ?thesis by (simp add: ps scan_def push_def)
qed

subsection \<open>convexHull: where the two chains meet\<close>

lemma cone_zero:
  fixes a b u1 u2 w1 w2 :: real
  assumes a: "0 \<le> a" and b: "0 \<le> b"
    and u: "0 < u1 \<or> (u1 = 0 \<and> 0 < u2)"
    and w: "0 < w1 \<or> (w1 = 0 \<and> 0 < w2)"
    and e1: "a * u1 + b * w1 = 0"
    and e2: "a * u2 + b * w2 = 0"
  shows "a = 0 \<and> b = 0"
proof -
  have au1: "0 \<le> a * u1" using a u by auto
  have bw1: "0 \<le> b * w1" using b w by auto
  from e1 au1 bw1 have z: "a * u1 = 0" "b * w1 = 0" by linarith+
  have a0: "a = 0"
  proof (rule ccontr)
    assume "a \<noteq> 0"
    with a have ap: "0 < a" by simp
    with z have "u1 = 0" by simp
    with u have "0 < u2" by simp
    with ap have "0 < a * u2" by simp
    moreover have "0 \<le> b * w2"
    proof (cases "b = 0")
      case True then show ?thesis by simp
    next
      case False
      with z have "w1 = 0" by simp
      with w have "0 < w2" by simp
      with b show ?thesis by simp
    qed
    ultimately show False using e2 by linarith
  qed
  have b0: "b = 0"
  proof (rule ccontr)
    assume "b \<noteq> 0"
    with b have bp: "0 < b" by simp
    with z have "w1 = 0" by simp
    with w have "0 < w2" by simp
    with bp have "0 < b * w2" by simp
    moreover from e2 a0 have "b * w2 = 0" by simp
    ultimately show False by simp
  qed
  from a0 b0 show ?thesis by simp
qed

text \<open>Points on the line through two different points l and m are collinear.\<close>

lemma parallel_cross_zero:
  fixes d1 d2 x1 x2 y1 y2 :: real
  assumes d: "d1 \<noteq> 0 \<or> d2 \<noteq> 0"
    and x: "d1 * x2 - d2 * x1 = 0" and y: "d1 * y2 - d2 * y1 = 0"
  shows "x1 * y2 - x2 * y1 = 0"
proof -
  have e1: "(x1 * y2 - x2 * y1) * d1 = (d1 * y2 - d2 * y1) * x1 - (d1 * x2 - d2 * x1) * y1"
    by (simp add: algebra_simps)
  have e2: "(x1 * y2 - x2 * y1) * d2 = (d1 * y2 - d2 * y1) * x2 - (d1 * x2 - d2 * x1) * y2"
    by (simp add: algebra_simps)
  from e1 e2 x y have "(x1 * y2 - x2 * y1) * d1 = 0" "(x1 * y2 - x2 * y1) * d2 = 0"
    by simp_all
  with d show ?thesis by auto
qed

lemma on_common_line:
  assumes lm: "l \<noteq> m"
    and a: "crossProduct l m a = 0" and b: "crossProduct l m b = 0"
    and c: "crossProduct l m c = 0"
  shows "crossProduct a b c = 0"
proof -
  define d1 where "d1 = getX m - getX l"
  define d2 where "d2 = getY m - getY l"
  define a1 where "a1 = getX a - getX l"
  define a2 where "a2 = getY a - getY l"
  define b1 where "b1 = getX b - getX l"
  define b2 where "b2 = getY b - getY l"
  define c1 where "c1 = getX c - getX l"
  define c2 where "c2 = getY c - getY l"
  have d: "d1 \<noteq> 0 \<or> d2 \<noteq> 0"
    using lm by (cases l; cases m) (auto simp add: d1_def d2_def)
  have da: "d1 * a2 - d2 * a1 = 0" using a by (simp add: crossProduct_def d1_def d2_def a1_def a2_def)
  have db: "d1 * b2 - d2 * b1 = 0" using b by (simp add: crossProduct_def d1_def d2_def b1_def b2_def)
  have dc: "d1 * c2 - d2 * c1 = 0" using c by (simp add: crossProduct_def d1_def d2_def c1_def c2_def)
  have bc: "b1 * c2 - b2 * c1 = 0" by (rule parallel_cross_zero [OF d db dc])
  have ba: "b1 * a2 - b2 * a1 = 0" by (rule parallel_cross_zero [OF d db da])
  have ac: "a1 * c2 - a2 * c1 = 0" by (rule parallel_cross_zero [OF d da dc])
  have "crossProduct a b c = (b1 * c2 - b2 * c1) - (b1 * a2 - b2 * a1) - (a1 * c2 - a2 * c1)"
    by (simp add: crossProduct_def a1_def a2_def b1_def b2_def c1_def c2_def algebra_simps)
  with bc ba ac show ?thesis by simp
qed

text \<open>
  Where two chains meet in the point m, coming from u and leaving to w on the same
  side of m, the turn is a strict left turn unless all points are collinear.
\<close>

lemma junction_turn:
  assumes um: "\<forall>q\<in>S. 0 \<le> crossProduct u m q" and mw: "\<forall>q\<in>S. 0 \<le> crossProduct m w q"
    and uS: "u \<in> S" and wS: "w \<in> S" and une: "u \<noteq> m" and wne: "w \<noteq> m"
    and side: "(lexle u m \<and> lexle w m) \<or> (lexle m u \<and> lexle m w)"
    and nc: "\<exists>a\<in>S. \<exists>b\<in>S. \<exists>c\<in>S. crossProduct a b c \<noteq> 0"
  shows "0 < crossProduct u m w"
proof (rule ccontr)
  assume "\<not> 0 < crossProduct u m w"
  moreover have "0 \<le> crossProduct u m w" using um wS by blast
  ultimately have z: "crossProduct u m w = 0" by simp
  have all: "crossProduct u m q = 0" if q: "q \<in> S" for q
  proof -
    define A where "A = crossProduct m w q"
    define B where "B = crossProduct u m q"
    have A: "0 \<le> A" and B: "0 \<le> B" using um mw q by (simp_all add: A_def B_def)
    define l1 where "l1 = getX u - getX m"
    define l2 where "l2 = getY u - getY m"
    define y1 where "y1 = getX w - getX m"
    define y2 where "y2 = getY w - getY m"
    have e1: "A * l1 + B * y1 = crossProduct u m w * (getX q - getX m)"
      by (simp add: A_def B_def crossProduct_def l1_def y1_def algebra_simps)
    have e2: "A * l2 + B * y2 = crossProduct u m w * (getY q - getY m)"
      by (simp add: A_def B_def crossProduct_def l2_def y2_def algebra_simps)
    from side show ?thesis
    proof
      assume s: "lexle u m \<and> lexle w m"
      have u: "0 < - l1 \<or> (- l1 = 0 \<and> 0 < - l2)"
        using lexle_diff_strict [of u m] s une by (auto simp add: l1_def l2_def)
      have w: "0 < - y1 \<or> (- y1 = 0 \<and> 0 < - y2)"
        using lexle_diff_strict [of w m] s wne by (auto simp add: y1_def y2_def)
      have "A * (- l1) + B * (- y1) = 0" "A * (- l2) + B * (- y2) = 0"
        using e1 e2 z by (simp_all add: algebra_simps)
      from cone_zero [OF A B u w this] show ?thesis by (simp add: B_def)
    next
      assume s: "lexle m u \<and> lexle m w"
      have u: "0 < l1 \<or> (l1 = 0 \<and> 0 < l2)"
        using lexle_diff_strict [of m u] s une by (auto simp add: l1_def l2_def)
      have w: "0 < y1 \<or> (y1 = 0 \<and> 0 < y2)"
        using lexle_diff_strict [of m w] s wne by (auto simp add: y1_def y2_def)
      have "A * l1 + B * y1 = 0" "A * l2 + B * y2 = 0"
        using e1 e2 z by simp_all
      from cone_zero [OF A B u w this] show ?thesis by (simp add: B_def)
    qed
  qed
  from nc obtain a b c where "a \<in> S" "b \<in> S" "c \<in> S" and ne: "crossProduct a b c \<noteq> 0"
    by blast
  then have "crossProduct a b c = 0"
    using on_common_line [OF une, of a b c] all by simp
  with ne show False by simp
qed

text \<open>
  A point x cannot be an inner vertex of the lower chain, between a and b, and also
  have a successor d on the upper chain.
\<close>

lemma not_on_both_chains:
  assumes xb: "lexle x b" and dx: "lexle d x" and dne: "d \<noteq> x"
    and turn: "0 < crossProduct a x b"
    and xbd: "0 \<le> crossProduct x b d" and xdb: "0 \<le> crossProduct x d b"
    and xda: "0 \<le> crossProduct x d a"
  shows False
proof -
  define b1 where "b1 = getX b - getX x"
  define b2 where "b2 = getY b - getY x"
  define d1 where "d1 = getX x - getX d"
  define d2 where "d2 = getY x - getY d"
  have bne: "b \<noteq> x" using turn by auto
  have b: "0 < b1 \<or> (b1 = 0 \<and> 0 < b2)"
    using lexle_diff_strict [OF xb] bne by (auto simp add: b1_def b2_def)
  have d: "0 < d1 \<or> (d1 = 0 \<and> 0 < d2)"
    using lexle_diff_strict [OF dx dne] by (simp add: d1_def d2_def)
  have bd: "crossProduct x b d = 0"
  proof -
    have "crossProduct x d b = - crossProduct x b d" by (simp add: crossProduct_def algebra_simps)
    with xbd xdb show ?thesis by simp
  qed
  have e1: "crossProduct x d a * b1 + crossProduct a x b * d1 = - crossProduct x b d * (getX a - getX x)"
    by (simp add: crossProduct_def b1_def d1_def algebra_simps)
  have e2: "crossProduct x d a * b2 + crossProduct a x b * d2 = - crossProduct x b d * (getY a - getY x)"
    by (simp add: crossProduct_def b2_def d2_def algebra_simps)
  have "crossProduct x d a * b1 + crossProduct a x b * d1 = 0"
       "crossProduct x d a * b2 + crossProduct a x b * d2 = 0"
    using e1 e2 bd by simp_all
  from cone_zero [OF xda _ b d this] turn show False by simp
qed

subsection \<open>convexHull: corners and hull vertices\<close>

lemma corner_decompose:
  "crossProduct u v w * (getX q - getX v)
     = crossProduct v w q * (getX u - getX v) + crossProduct u v q * (getX w - getX v)"
  "crossProduct u v w * (getY q - getY v)
     = crossProduct v w q * (getY u - getY v) + crossProduct u v q * (getY w - getY v)"
  by (simp_all add: crossProduct_def algebra_simps)

lemma corner_hull_vertex:
  assumes c: "corner S u v w" and v: "v \<in> S"
  shows "hull_vertex S v"
proof -
  define a where "a = getY w - getY u"
  define b where "b = getX u - getX w"
  define c where "c = a * getX v + b * getY v"
  have g: "a * getX q + b * getY q - c = - (crossProduct u v q + crossProduct v w q)" for q
    by (simp add: a_def b_def c_def crossProduct_def algebra_simps)
  have "a * getX q + b * getY q < c" if q: "q \<in> S" and ne: "q \<noteq> v" for q
  proof -
    have p1: "0 \<le> crossProduct u v q" and p2: "0 \<le> crossProduct v w q"
      using c q by (simp_all add: corner_def)
    have "crossProduct u v q + crossProduct v w q \<noteq> 0"
    proof
      assume "crossProduct u v q + crossProduct v w q = 0"
      with p1 p2 have z: "crossProduct u v q = 0" "crossProduct v w q = 0" by linarith+
      have "crossProduct u v w * (getX q - getX v) = 0" "crossProduct u v w * (getY q - getY v) = 0"
        using corner_decompose [of u v w q] z by simp_all
      moreover have "crossProduct u v w \<noteq> 0" using c by (simp add: corner_def)
      ultimately have "getX q = getX v" "getY q = getY v" by simp_all
      then have "q = v" by (cases q; cases v) simp
      with ne show False by simp
    qed
    with p1 p2 have "0 < crossProduct u v q + crossProduct v w q" by linarith
    with g [of q] show ?thesis by linarith
  qed
  moreover have "on_line a b c v" by (simp add: on_line_def c_def)
  ultimately show ?thesis using v unfolding hull_vertex_def by blast
qed

lemma hull_vertex_among_corners:
  assumes ne: "hs \<noteq> []" and sub: "set hs \<subseteq> S"
    and corners: "\<forall>v\<in>set hs. \<exists>u\<in>set hs. \<exists>w\<in>set hs. corner S u v w"
    and x: "hull_vertex S x"
  shows "x \<in> set hs"
proof (rule ccontr)
  assume notin: "x \<notin> set hs"
  from x obtain a b c where xS: "x \<in> S" and line: "a * getX x + b * getY x = c"
    and strict: "\<forall>q\<in>S. q \<noteq> x \<longrightarrow> a * getX q + b * getY q < c"
    unfolding hull_vertex_def on_line_def by blast
  define f where "f q = a * getX q + b * getY q" for q
  have fin: "finite (f ` set hs)" and nonempty: "f ` set hs \<noteq> {}" using ne by simp_all
  from Max_in [OF fin nonempty] obtain h where h: "h \<in> set hs" and hmax: "f h = Max (f ` set hs)"
    by auto
  have le: "f h' \<le> f h" if "h' \<in> set hs" for h'
    using Max_ge [OF fin, of "f h'"] that hmax by simp
  from corners h obtain u w where u: "u \<in> set hs" and w: "w \<in> set hs" and c: "corner S u h w"
    by blast
  have hx: "h \<noteq> x" using h notin by auto
  have "h \<in> S" using h sub by auto
  with strict hx have lt: "f h < f x" by (simp add: f_def line)
  have D: "0 < crossProduct u h w" and A: "0 \<le> crossProduct h w x" and B: "0 \<le> crossProduct u h x"
    using c xS by (simp_all add: corner_def)
  have "crossProduct u h w * (f x - f h)
          = crossProduct h w x * (f u - f h) + crossProduct u h x * (f w - f h)"
  proof -
    have X: "crossProduct u h w * (getX x - getX h)
               = crossProduct h w x * (getX u - getX h) + crossProduct u h x * (getX w - getX h)"
      by (rule corner_decompose(1))
    have Y: "crossProduct u h w * (getY x - getY h)
               = crossProduct h w x * (getY u - getY h) + crossProduct u h x * (getY w - getY h)"
      by (rule corner_decompose(2))
    have "crossProduct u h w * (f x - f h)
            = a * (crossProduct u h w * (getX x - getX h)) + b * (crossProduct u h w * (getY x - getY h))"
      by (simp add: f_def algebra_simps)
    also have "\<dots> = a * (crossProduct h w x * (getX u - getX h) + crossProduct u h x * (getX w - getX h))
                   + b * (crossProduct h w x * (getY u - getY h) + crossProduct u h x * (getY w - getY h))"
      by (simp only: X Y)
    also have "\<dots> = crossProduct h w x * (f u - f h) + crossProduct u h x * (f w - f h)"
      by (simp add: f_def algebra_simps)
    finally show ?thesis .
  qed
  moreover have "crossProduct h w x * (f u - f h) \<le> 0"
    using A le [OF u] by (simp add: mult_nonneg_nonpos)
  moreover have "crossProduct u h x * (f w - f h) \<le> 0"
    using B le [OF w] by (simp add: mult_nonneg_nonpos)
  ultimately have "crossProduct u h w * (f x - f h) \<le> 0" by linarith
  moreover have "0 < crossProduct u h w * (f x - f h)" using D lt by simp
  ultimately show False by simp
qed

subsection \<open>convexHull: the upper chain by reflection\<close>

lemma crossProduct_neg [simp]: "crossProduct (neg a) (neg b) (neg c) = crossProduct a b c"
  by (simp add: crossProduct_def neg_def algebra_simps)

lemma lexle_neg [simp]: "lexle (neg a) (neg b) = lexle b a"
  by (auto simp add: lexle_iff neg_def)

lemma neg_neg [simp]: "neg (neg p) = p"
  by (simp add: neg_def)

lemma inj_neg: "inj neg"
  by (rule inj_on_inverseI [of _ neg]) simp

lemma pops_neg: "pops (map neg st) (neg p) = map neg (pops st p)"
  by (induction st p rule: pops.induct) auto

lemma foldl_push_neg:
  "foldl push (map neg st) (map neg ps) = map neg (foldl push st ps)"
proof (induction ps arbitrary: st)
  case Nil
  then show ?case by simp
next
  case (Cons p ps)
  have "push (map neg st) (neg p) = map neg (push st p)"
    by (simp add: push_def pops_neg)
  then show ?case by (simp add: Cons.IH)
qed

lemma scan_neg: "scan (map neg ps) = map neg (scan ps)"
  using foldl_push_neg [of "[]" ps] by (simp add: scan_def)

lemma turns_neg: "turns (map neg st) = turns st"
  by (induction st rule: turns.induct) auto

lemma covers_neg: "covers (neg ` Q) (map neg st) = covers Q st"
  by (induction Q st rule: covers.induct) auto

lemma chain_inv_scan_desc:
  assumes "sorted_wrt (\<lambda>x y. lexle y x) ps" "ps \<noteq> []"
  shows "scan ps \<noteq> [] \<and> set (scan ps) \<subseteq> set ps \<and> sorted_wrt lexle (scan ps)
         \<and> turns (scan ps) \<and> covers (set ps) (scan ps)
         \<and> (\<forall>q\<in>set ps. lexle q (last (scan ps))) \<and> (\<forall>q\<in>set ps. lexle (hd (scan ps)) q)"
proof -
  have "sorted_wrt lexle (map neg ps)" using assms(1) by (simp add: sorted_wrt_map)
  then have "chain_inv (set (map neg ps)) (scan (map neg ps))"
    by (rule chain_inv_scan) (use assms(2) in simp)
  then have inv: "chain_inv (neg ` set ps) (map neg (scan ps))"
    by (simp add: scan_neg)
  then have ne: "scan ps \<noteq> []" by (simp add: chain_inv_def)
  have "neg ` set (scan ps) \<subseteq> neg ` set ps" using inv by (simp add: chain_inv_def)
  then have sub: "set (scan ps) \<subseteq> set ps" by (simp add: inj_image_subset_iff [OF inj_neg])
  have srt: "sorted_wrt lexle (scan ps)" using inv by (simp add: chain_inv_def sorted_wrt_map)
  have trn: "turns (scan ps)" using inv by (simp add: chain_inv_def turns_neg)
  have cov: "covers (set ps) (scan ps)" using inv by (simp add: chain_inv_def covers_neg)
  have mx: "\<forall>q\<in>set ps. lexle q (last (scan ps))"
    using inv ne by (simp add: chain_inv_def last_map)
  have mn: "\<forall>q\<in>set ps. lexle (hd (scan ps)) q"
    using inv ne by (simp add: chain_inv_def hd_map)
  from ne sub srt trn cov mx mn show ?thesis by blast
qed

subsection \<open>convexHull: the closed chain\<close>

lemma turns_nth:
  "turns st \<Longrightarrow> i + 2 < length st \<Longrightarrow> 0 < crossProduct (st ! (i + 2)) (st ! (i + 1)) (st ! i)"
proof (induction st arbitrary: i rule: turns.induct)
  case (1 c b a st)
  show ?case
  proof (cases i)
    case 0
    with "1.prems" show ?thesis by simp
  next
    case (Suc j)
    with "1.prems" "1.IH" [of j] show ?thesis by simp
  qed
qed simp_all

lemma covers_nth:
  "covers Q st \<Longrightarrow> i + 1 < length st \<Longrightarrow> q \<in> Q \<Longrightarrow> 0 \<le> crossProduct (st ! (i + 1)) (st ! i) q"
proof (induction Q st arbitrary: i rule: covers.induct)
  case (1 Q b a st)
  show ?case
  proof (cases i)
    case 0
    with "1.prems" show ?thesis by simp
  next
    case (Suc j)
    with "1.prems" "1.IH" [of j] show ?thesis by simp
  qed
qed simp_all

lemma turns_join:
  "turns (xs @ [u, m]) \<Longrightarrow> turns (m # l # ls) \<Longrightarrow> 0 < crossProduct l m u
   \<Longrightarrow> turns (xs @ u # m # l # ls)"
proof (induction xs rule: induct_list012)
  case 1
  then show ?case by simp
next
  case (2 x)
  then show ?case by simp
next
  case (3 x y zs)
  then show ?case by (cases zs) auto
qed

lemma covers_join:
  "covers Q (xs @ [m]) \<Longrightarrow> covers Q (m # ys) \<Longrightarrow> covers Q (xs @ m # ys)"
proof (induction xs)
  case Nil
  then show ?case by simp
next
  case (Cons x xs)
  then show ?case by (cases xs) auto
qed

lemma in_set_cases:
  assumes "v \<in> set xs"
  shows "v = hd xs \<or> v = last xs \<or> (\<exists>pre c a post. xs = pre @ c # v # a # post)"
proof -
  from assms obtain ys zs where xs: "xs = ys @ v # zs" by (auto dest: split_list)
  show ?thesis
  proof (cases "ys = []")
    case True
    with xs show ?thesis by simp
  next
    case False
    then obtain pre c where ys: "ys = pre @ [c]" by (metis append_butlast_last_id)
    show ?thesis
    proof (cases zs)
      case Nil
      with xs show ?thesis by simp
    next
      case (Cons a post)
      with xs ys have "xs = pre @ c # v # a # post" by simp
      then show ?thesis by blast
    qed
  qed
qed

lemma sorted_adjacent_distinct:
  assumes srt: "sorted_wrt R xs" and antisym: "\<And>x y. R x y \<Longrightarrow> R y x \<Longrightarrow> x = y"
    and adj: "\<And>i. i + 1 < length xs \<Longrightarrow> xs ! i \<noteq> xs ! (i + 1)"
  shows "distinct xs"
proof -
  have "xs ! i \<noteq> xs ! j" if "i < j" "j < length xs" for i j
  proof
    assume eq: "xs ! i = xs ! j"
    have i1: "i + 1 < length xs" using that by simp
    have r1: "R (xs ! i) (xs ! (i + 1))"
      using srt i1 by (simp add: sorted_wrt_nth_less)
    have "xs ! i = xs ! (i + 1)"
    proof (cases "i + 1 = j")
      case True
      with eq show ?thesis by simp
    next
      case False
      with that have "i + 1 < j" by simp
      then have "R (xs ! (i + 1)) (xs ! j)"
        using srt that by (simp add: sorted_wrt_nth_less)
      with eq r1 antisym show ?thesis by simp
    qed
    with adj [OF i1] show False by simp
  qed
  then have "\<forall>i<length xs. \<forall>j<length xs. i \<noteq> j \<longrightarrow> xs ! i \<noteq> xs ! j"
    by (metis nat_neq_iff)
  then show ?thesis by (simp add: distinct_conv_nth)
qed

lemma turns_adjacent:
  assumes "turns st" "hd st \<noteq> last st" "i + 1 < length st"
  shows "st ! i \<noteq> st ! (i + 1)"
proof (cases "i + 2 < length st")
  case True
  from turns_nth [OF assms(1) True] show ?thesis by auto
next
  case False
  with assms(3) have len: "length st = i + 2" by simp
  show ?thesis
  proof (cases i)
    case 0
    with len obtain a b where "st = [a, b]"
      by (cases st; cases "tl st") auto
    with assms(2) 0 show ?thesis by simp
  next
    case (Suc j)
    with len have "j + 2 < length st" by simp
    from turns_nth [OF assms(1) this] Suc show ?thesis by auto
  qed
qed

lemma chain_distinct:
  assumes "sorted_wrt (\<lambda>x y. lexle y x) st \<or> sorted_wrt lexle st" "turns st" "hd st \<noteq> last st"
  shows "distinct st"
proof -
  have adj: "\<And>i. i + 1 < length st \<Longrightarrow> st ! i \<noteq> st ! (i + 1)"
    by (rule turns_adjacent [OF assms(2,3)])
  have anti: "\<And>x y. lexle y x \<Longrightarrow> lexle x y \<Longrightarrow> x = y"
    by (simp add: lexle_antisym)
  from assms(1) show ?thesis
  proof
    assume "sorted_wrt (\<lambda>x y. lexle y x) st"
    then show ?thesis
      using anti adj by (rule sorted_adjacent_distinct)
  next
    assume "sorted_wrt lexle st"
    then show ?thesis
      using lexle_antisym adj by (rule sorted_adjacent_distinct)
  qed
qed

lemma two_or_more:
  assumes "xs \<noteq> []" "hd xs \<noteq> last xs"
  shows "\<exists>a b r. xs = a # b # r" and "\<exists>pre b a. xs = pre @ [b, a]"
proof -
  from assms obtain a r where xs: "xs = a # r" by (cases xs) auto
  with assms(2) have r: "r \<noteq> []" by auto
  then obtain b r' where "r = b # r'" by (cases r) auto
  with xs show "\<exists>a b r. xs = a # b # r" by blast
  from r obtain pre' z where "r = pre' @ [z]" by (metis append_butlast_last_id)
  with xs have "xs = (a # pre') @ [z]" by simp
  then obtain ys z where ys: "xs = ys @ [z]" by blast
  with assms(2) have "ys \<noteq> []" by auto
  then obtain pre b where "ys = pre @ [b]" by (metis append_butlast_last_id)
  with ys show "\<exists>pre b a. xs = pre @ [b, a]" by simp
qed

lemma covers_first: "covers Q (b # a # st) \<Longrightarrow> q \<in> Q \<Longrightarrow> 0 \<le> crossProduct a b q"
  by simp

lemma covers_mid: "covers Q (pre @ b # a # st) \<Longrightarrow> q \<in> Q \<Longrightarrow> 0 \<le> crossProduct a b q"
  using covers_suffix [of Q pre "b # a # st"] by simp

lemma turns_mid: "turns (pre @ c # b # a # st) \<Longrightarrow> 0 < crossProduct a b c"
  using turns_suffix [of pre "c # b # a # st"] by simp

lemma closed_chain_props:
  assumes srt: "sorted_wrt lexle ps"
    and nc: "\<exists>a\<in>set ps. \<exists>b\<in>set ps. \<exists>c\<in>set ps. crossProduct a b c \<noteq> 0"
  shows "set (closed_chain ps) \<subseteq> set ps"
    and "turns (closed_chain ps)"
    and "covers (set ps) (closed_chain ps)"
    and "hd (closed_chain ps) = last (closed_chain ps)"
    and "4 \<le> length (closed_chain ps)"
    and "distinct (tl (closed_chain ps))"
    and "\<forall>v\<in>set (closed_chain ps). \<exists>u\<in>set (closed_chain ps). \<exists>w\<in>set (closed_chain ps).
            corner (set ps) u v w"
    and "0 < crossProduct (closed_chain ps ! 1) (last (closed_chain ps))
               (closed_chain ps ! (length (closed_chain ps) - 2))"
proof -
  define S where "S = set ps"
  define L where "L = scan ps"
  define U where "U = scan (rev ps)"
  define W where "W = closed_chain ps"
  have W: "W = U @ tl L" by (simp add: W_def closed_chain_def U_def L_def)
  have ne: "ps \<noteq> []" using nc by auto
  have "chain_inv S L" unfolding S_def L_def by (rule chain_inv_scan [OF srt ne])
  then have Lne: "L \<noteq> []" and Lsub: "set L \<subseteq> S"
    and Lsrt: "sorted_wrt (\<lambda>x y. lexle y x) L" and Ltrn: "turns L" and Lcov: "covers S L"
    and Lmin: "\<forall>q\<in>S. lexle (last L) q" and Lmax: "\<forall>q\<in>S. lexle q (hd L)"
    by (simp_all add: chain_inv_def)
  have "sorted_wrt (\<lambda>x y. lexle y x) (rev ps)" using srt by (simp add: sorted_wrt_rev)
  from chain_inv_scan_desc [OF this] ne
  have Une: "U \<noteq> []" and Usub: "set U \<subseteq> S" and Usrt: "sorted_wrt lexle U"
    and Utrn: "turns U" and Ucov: "covers S U"
    and Umax: "\<forall>q\<in>S. lexle q (last U)" and Umin: "\<forall>q\<in>S. lexle (hd U) q"
    by (simp_all add: U_def S_def)
  define m where "m = last L"
  define M where "M = hd L"
  have mS: "m \<in> S" and MS: "M \<in> S" using Lne Lsub by (auto simp add: m_def M_def)
  have hdU: "hd U = m"
  proof -
    have "hd U \<in> S" using Une Usub by auto
    then have "lexle m (hd U)" using Lmin by (simp add: m_def)
    moreover have "lexle (hd U) m" using Umin mS by simp
    ultimately show ?thesis by (simp add: lexle_antisym)
  qed
  have lastU: "last U = M"
  proof -
    have "last U \<in> S" using Une Usub by auto
    then have "lexle (last U) M" using Lmax by (simp add: M_def)
    moreover have "lexle M (last U)" using Umax MS by simp
    ultimately show ?thesis by (simp add: lexle_antisym)
  qed
  have mM: "m \<noteq> M"
  proof
    assume eq: "m = M"
    have all: "q = m" if "q \<in> S" for q
      using that Lmin Lmax eq by (simp add: m_def M_def lexle_antisym)
    from nc obtain a b c where abc: "a \<in> S" "b \<in> S" "c \<in> S"
      and nz: "crossProduct a b c \<noteq> 0"
      by (auto simp add: S_def)
    have "a = m" "b = m" "c = m" by (rule all, rule abc)+
    with nz show False by simp
  qed
  have Lends: "hd L \<noteq> last L" using mM by (simp add: m_def M_def)
  have Uends: "hd U \<noteq> last U" using mM by (simp add: hdU lastU)
  have Ldist: "distinct L" by (rule chain_distinct) (use Lsrt Ltrn Lends in simp_all)
  have Udist: "distinct U" by (rule chain_distinct) (use Usrt Utrn Uends in simp_all)
  from two_or_more [OF Lne Lends] obtain l ls lpre l' where
    L1: "L = M # l # ls" and L2: "L = lpre @ [l', m]"
    by (metis M_def m_def list.sel(1) last_snoc append_assoc append_Cons append_Nil)
  from two_or_more [OF Une Uends] obtain u' us upre u where
    U1: "U = m # u' # us" and U2: "U = upre @ [u, M]"
    by (metis hdU lastU list.sel(1) last_snoc append_assoc append_Cons append_Nil)
  have "l \<in> set L" by (subst L1) simp
  then have lS: "l \<in> S" using Lsub by auto
  have "l' \<in> set L" by (subst L2) simp
  then have l'S: "l' \<in> S" using Lsub by auto
  have "u \<in> set U" by (subst U2) simp
  then have uS: "u \<in> S" using Usub by auto
  have "u' \<in> set U" by (subst U1) simp
  then have u'S: "u' \<in> S" using Usub by auto
  have lM: "l \<noteq> M" using Ldist L1 by auto
  have l'm: "l' \<noteq> m" using Ldist L2 by auto
  have uM: "u \<noteq> M" using Udist U2 by auto
  have u'm: "u' \<noteq> m" using Udist U1 by auto
  have turnM: "0 < crossProduct l M u"
  proof (rule junction_turn [where S = S])
    show "\<forall>q\<in>S. 0 \<le> crossProduct l M q" using Lcov L1 by simp
    show "\<forall>q\<in>S. 0 \<le> crossProduct M u q" using Ucov U2 covers_mid [of S upre u M "[]"] by simp
    show "(lexle l M \<and> lexle u M) \<or> (lexle M l \<and> lexle M u)"
      using Lmax lS uS by (simp add: M_def)
    show "\<exists>a\<in>S. \<exists>b\<in>S. \<exists>c\<in>S. crossProduct a b c \<noteq> 0" using nc by (simp add: S_def)
  qed (rule lS uS lM uM)+
  have turnm: "0 < crossProduct u' m l'"
  proof (rule junction_turn [where S = S])
    show "\<forall>q\<in>S. 0 \<le> crossProduct u' m q" using Ucov U1 by simp
    show "\<forall>q\<in>S. 0 \<le> crossProduct m l' q" using Lcov L2 covers_mid [of S lpre l' m "[]"] by simp
    show "(lexle u' m \<and> lexle l' m) \<or> (lexle m u' \<and> lexle m l')"
      using Lmin l'S u'S by (simp add: m_def)
    show "\<exists>a\<in>S. \<exists>b\<in>S. \<exists>c\<in>S. crossProduct a b c \<noteq> 0" using nc by (simp add: S_def)
  qed (rule l'S u'S l'm u'm)+
  have W1: "W = upre @ u # M # l # ls" using W U2 L1 by simp
  have Wsub: "set W \<subseteq> S" using W Usub Lsub Lne by (auto dest: list.set_sel(2))
  have Wtrn: "turns W"
    unfolding W1 by (rule turns_join) (use Utrn U2 Ltrn L1 turnM in simp_all)
  have Wcov: "covers S W"
  proof -
    have "covers S ((upre @ [u]) @ M # l # ls)"
      by (rule covers_join) (use Ucov U2 Lcov L1 in simp_all)
    then show ?thesis by (simp add: W1)
  qed
  have hdW: "hd W = m" using W Une hdU by simp
  have lastW: "last W = m" using W L1 by (simp add: m_def)
  obtain X where W2: "W = X @ [l', m]"
  proof (cases lpre)
    case Nil
    with L2 L1 have "l' = M" "tl L = [m]" by auto
    with W U2 have "W = (upre @ [u]) @ [l', m]" by simp
    then show ?thesis by (rule that)
  next
    case (Cons z zs)
    with L2 have "tl L = zs @ [l', m]" by simp
    with W have "W = (U @ zs) @ [l', m]" by simp
    then show ?thesis by (rule that)
  qed
  have W3: "W = m # u' # us @ tl L" using W U1 by simp
  have len: "4 \<le> length W"
  proof (rule ccontr)
    assume short: "\<not> 4 \<le> length W"
    have "length W = length upre + length ls + 3" by (simp add: W1)
    with short have "length upre = 0" "length ls = 0" by linarith+
    then have "W = [u, M, l]" by (simp add: W1)
    with hdW lastW have "u = m" "l = m" by simp_all
    with turnM show False by simp
  qed
  have l'W: "l' \<in> set W" using W2 by simp
  have u'W: "u' \<in> set W" using W3 by simp
  have closing: "corner S u' m l'"
    unfolding corner_def
  proof (intro conjI)
    show "0 < crossProduct u' m l'" by (rule turnm)
    show "\<forall>q\<in>S. 0 \<le> crossProduct u' m q" using Ucov U1 by simp
    show "\<forall>q\<in>S. 0 \<le> crossProduct m l' q" using Lcov L2 covers_mid [of S lpre l' m "[]"] by simp
  qed
  have corners: "\<exists>u\<in>set W. \<exists>w\<in>set W. corner S u v w" if v: "v \<in> set W" for v
  proof -
    from in_set_cases [OF v] hdW lastW
    consider "v = m" | pre c a post where "W = pre @ c # v # a # post" by auto
    then show ?thesis
    proof cases
      case 1
      with closing l'W u'W show ?thesis by blast
    next
      case 2
      have "0 < crossProduct a v c" using Wtrn 2 turns_mid by metis
      moreover have "\<forall>q\<in>S. 0 \<le> crossProduct a v q"
        using Wcov 2 covers_mid [of S "pre @ [c]" v a post] by simp
      moreover have "\<forall>q\<in>S. 0 \<le> crossProduct v c q"
        using Wcov 2 covers_mid [of S pre c v "a # post"] by simp
      ultimately have "corner S a v c" by (simp add: corner_def)
      moreover have "a \<in> set W" "c \<in> set W" using 2 by simp_all
      ultimately show ?thesis by blast
    qed
  qed
  have disj: "set (tl U) \<inter> set (tl L) = {}"
  proof (rule ccontr)
    assume "set (tl U) \<inter> set (tl L) \<noteq> {}"
    then obtain x where xU: "x \<in> set (tl U)" and xL: "x \<in> set (tl L)" by auto
    have xm: "x \<noteq> m" using xU Udist U1 by auto
    have xM: "x \<noteq> M" using xL Ldist L1 by auto
    have "x \<in> set L" using xL Lne by (auto dest: list.set_sel(2))
    from in_set_cases [OF this] xm xM obtain pre b a post where Lx: "L = pre @ b # x # a # post"
      by (auto simp add: m_def M_def)
    have "x \<in> set U" using xU Une by (auto dest: list.set_sel(2))
    from in_set_cases [OF this] xm xM obtain pre' d c post' where Ux: "U = pre' @ d # x # c # post'"
      by (auto simp add: hdU lastU)
    have bS: "b \<in> S" and aS: "a \<in> S" using Lsub Lx by auto
    have dS: "d \<in> S" using Usub Ux by auto
    have xb: "lexle x b" using Lsrt Lx by (simp add: sorted_wrt_append)
    have dx: "lexle d x" using Usrt Ux by (simp add: sorted_wrt_append)
    have dne: "d \<noteq> x" using Udist Ux by auto
    have turn: "0 < crossProduct a x b" using Ltrn Lx turns_mid by metis
    have xbq: "\<forall>q\<in>S. 0 \<le> crossProduct x b q"
      using Lcov Lx covers_mid [of S pre b x "a # post"] by simp
    have xdq: "\<forall>q\<in>S. 0 \<le> crossProduct x d q"
      using Ucov Ux covers_mid [of S pre' d x "c # post'"] by simp
    show False
      by (rule not_on_both_chains [OF xb dx dne turn]) (use xbq xdq aS bS dS in simp_all)
  qed
  have dist: "distinct (tl W)"
  proof -
    have "tl W = tl U @ tl L" using W Une by simp
    moreover have "distinct (tl U)" "distinct (tl L)" using Udist Ldist by (simp_all add: distinct_tl)
    ultimately show ?thesis using disj by simp
  qed
  have closure_turn: "0 < crossProduct (W ! 1) (last W) (W ! (length W - 2))"
  proof -
    have "W ! 1 = u'" using W3 by simp
    moreover have "W ! (length W - 2) = l'" using W2 by (simp add: nth_append)
    ultimately show ?thesis using turnm lastW by simp
  qed
  show "set (closed_chain ps) \<subseteq> set ps" using Wsub by (simp add: W_def S_def)
  show "turns (closed_chain ps)" using Wtrn by (simp add: W_def)
  show "covers (set ps) (closed_chain ps)" using Wcov by (simp add: W_def S_def)
  show "hd (closed_chain ps) = last (closed_chain ps)" using hdW lastW by (simp add: W_def)
  show "4 \<le> length (closed_chain ps)" using len by (simp add: W_def)
  show "distinct (tl (closed_chain ps))" using dist by (simp add: W_def)
  show "\<forall>v\<in>set (closed_chain ps). \<exists>u\<in>set (closed_chain ps). \<exists>w\<in>set (closed_chain ps).
            corner (set ps) u v w"
    using corners by (simp add: W_def S_def)
  show "0 < crossProduct (closed_chain ps ! 1) (last (closed_chain ps))
               (closed_chain ps ! (length (closed_chain ps) - 2))"
    using closure_turn by (simp add: W_def)
qed

subsection \<open>convexHull: the loops compute the closed chain\<close>

lemma length_push: "length (push st p) \<le> length st + 1"
  using pops_length [of st p] by (simp add: push_def)

lemma length_foldl_push: "length (foldl push st ps) \<le> length st + length ps"
proof (induction ps arbitrary: st)
  case Nil
  then show ?case by simp
next
  case (Cons p ps)
  have "length (foldl push (push st p) ps) \<le> length (push st p) + length ps"
    by (rule Cons.IH)
  with length_push [of st p] show ?case by simp
qed

lemma take_pops:
  assumes "take (length base + length st) hullv = base @ rev st"
  shows "take (length base + length (pops st p)) hullv = base @ rev (pops st p)"
proof -
  obtain pre where pre: "st = pre @ pops st p" using pops_suffix by blast
  have le: "length (pops st p) \<le> length st" by (rule pops_length)
  have "take (length base + length (pops st p)) hullv
          = take (length base + length (pops st p)) (take (length base + length st) hullv)"
    using le by (simp add: min_def)
  also have "\<dots> = take (length base + length (pops st p)) (base @ rev st)"
    by (simp only: assms)
  also have "\<dots> = base @ take (length (pops st p)) (rev st)"
    by simp
  also have "rev st = rev (pops st p) @ rev pre"
    by (subst pre) simp
  also have "take (length (pops st p)) (rev (pops st p) @ rev pre) = rev (pops st p)"
    by simp
  finally show ?thesis .
qed

lemma pop_loop_refines:
  assumes "take (length base + length st) hullv = base @ rev st"
    and "length base + length st \<le> length hullv"
  shows "pop_loop hullv (int (length base) + 2) (int (length base + length st)) p
           = Inr (int (length base + length (pops st p)))"
  using assms
proof (induction st p rule: pops.induct)
  case (1 x y rest p)
  let ?k = "length base + length (x # y # rest)"
  have kx: "nat (int ?k - 1) = length base + length rest + 1" by simp
  have ky: "nat (int ?k - 2) = length base + length rest" by simp
  have nth: "hullv ! i = (base @ rev (x # y # rest)) ! i" if "i < ?k" for i
    using that "1.prems"(1) by (metis nth_take)
  have "hullv ! (length base + length rest + 1) = x"
    using nth [of "length base + length rest + 1"] by (simp add: nth_append)
  then have x: "hullv ! nat (int ?k - 1) = x" by (simp only: kx)
  have "hullv ! (length base + length rest) = y"
    using nth [of "length base + length rest"] by (simp add: nth_append)
  then have y: "hullv ! nat (int ?k - 2) = y" by (simp only: ky)
  have guard: "int ?k \<ge> int (length base) + 2" by simp
  have inrange: "\<not> (int ?k - 2 < 0 \<or> int (length hullv) \<le> int ?k - 1)"
    using "1.prems"(2) by simp
  show ?case
  proof (cases "crossProduct y x p \<le> 0")
    case True
    have t: "take (length base + length (y # rest)) hullv = base @ rev (y # rest)"
    proof -
      have "take (length base + length (y # rest)) hullv
              = take (length base + length (y # rest)) (take ?k hullv)"
        by (simp add: min_def)
      also have "\<dots> = take (length base + length (y # rest)) (base @ rev (x # y # rest))"
        by (simp only: "1.prems"(1))
      also have "\<dots> = base @ rev (y # rest)" by simp
      finally show ?thesis .
    qed
    have c: "length base + length (y # rest) \<le> length hullv" using "1.prems"(2) by simp
    have "pop_loop hullv (int (length base) + 2) (int ?k) p
            = pop_loop hullv (int (length base) + 2) (int ?k - 1) p"
      by (subst pop_loop.simps) (simp only: guard inrange x y True if_True if_False)
    also have "int ?k - 1 = int (length base + length (y # rest))" by simp
    also have "pop_loop hullv (int (length base) + 2) (int (length base + length (y # rest))) p
                 = Inr (int (length base + length (pops (y # rest) p)))"
      by (rule "1.IH" [OF True t c])
    finally show ?thesis using True by simp
  next
    case False
    have "pop_loop hullv (int (length base) + 2) (int ?k) p = Inr (int ?k)"
      by (subst pop_loop.simps) (simp only: guard inrange x y False if_True if_False)
    with False show ?thesis by simp
  qed
qed (subst pop_loop.simps, simp)+

lemma store_nat:
  "j < length hullv \<Longrightarrow> store hullv (int j) p = Inr (hullv[j := p], int (j + 1))"
  by (simp add: store_def)

lemma step_refines:
  assumes t: "take (length base + length st) hullv = base @ rev st"
    and c: "length base + length st < length hullv"
  shows "pop_loop hullv (int (length base) + 2) (int (length base + length st)) p
           = Inr (int (length base + length (pops st p)))"
    and "store hullv (int (length base + length (pops st p))) p
           = Inr (hullv[length base + length (pops st p) := p],
                  int (length base + length (push st p)))"
    and "take (length base + length (push st p)) (hullv[length base + length (pops st p) := p])
           = base @ rev (push st p)"
proof -
  show "pop_loop hullv (int (length base) + 2) (int (length base + length st)) p
           = Inr (int (length base + length (pops st p)))"
    by (rule pop_loop_refines [OF t]) (use c in simp)
  have lt: "length base + length (pops st p) < length hullv"
    using c pops_length [of st p] by simp
  then show "store hullv (int (length base + length (pops st p))) p
           = Inr (hullv[length base + length (pops st p) := p],
                  int (length base + length (push st p)))"
    using store_nat [of "length base + length (pops st p)" hullv p] by (simp add: push_def)
  have "take (Suc (length base + length (pops st p))) (hullv[length base + length (pops st p) := p])
          = take (length base + length (pops st p)) hullv @ [p]"
    using lt by (simp add: take_Suc_conv_app_nth)
  also have "\<dots> = base @ rev (push st p)"
    by (simp add: take_pops [OF t] push_def)
  finally show "take (length base + length (push st p)) (hullv[length base + length (pops st p) := p])
           = base @ rev (push st p)"
    by (simp add: push_def)
qed

lemma lower_loop_refines:
  assumes "i \<le> length points"
    and "take (length st) hullv = rev st"
    and "length st + (length points - i) \<le> length hullv"
  shows "\<exists>hullv'. lower_loop points (int (length points)) (int i) hullv (int (length st))
                     = Inr (hullv', int (length (foldl push st (drop i points))))
           \<and> take (length (foldl push st (drop i points))) hullv' = rev (foldl push st (drop i points))
           \<and> length hullv' = length hullv"
  using assms
proof (induction "length points - i" arbitrary: i st hullv)
  case 0
  then have "i = length points" by simp
  then show ?case
    using "0.prems"(2) by (subst lower_loop.simps) simp
next
  case (Suc d)
  then have lt: "i < length points" by simp
  define p where "p = points ! i"
  have t: "take (length ([]::Cartesian list) + length st) hullv = [] @ rev st"
    using Suc.prems(2) by simp
  have c: "length ([]::Cartesian list) + length st < length hullv"
    using Suc.prems(3) lt by simp
  define hullv1 where "hullv1 = hullv[length (pops st p) := p]"
  have pop: "pop_loop hullv 2 (int (length st)) p = Inr (int (length (pops st p)))"
    using step_refines(1) [OF t c, of p] by simp
  have sto: "store hullv (int (length (pops st p))) p = Inr (hullv1, int (length (push st p)))"
    using step_refines(2) [OF t c, of p] by (simp add: hullv1_def)
  have tk: "take (length (push st p)) hullv1 = rev (push st p)"
    using step_refines(3) [OF t c, of p] by (simp add: hullv1_def)
  have len1: "length hullv1 = length hullv" by (simp add: hullv1_def)
  have d: "d = length points - Suc i" using Suc.hyps(2) by simp
  have i': "Suc i \<le> length points" using lt by simp
  have cap: "length (push st p) + (length points - Suc i) \<le> length hullv1"
    using Suc.prems(3) lt length_push [of st p] len1 by simp
  from Suc.hyps(1) [OF d i' tk cap] obtain hullv' where
    r: "lower_loop points (int (length points)) (int (Suc i)) hullv1 (int (length (push st p)))
          = Inr (hullv', int (length (foldl push (push st p) (drop (Suc i) points))))"
    and tk': "take (length (foldl push (push st p) (drop (Suc i) points))) hullv'
                = rev (foldl push (push st p) (drop (Suc i) points))"
    and len': "length hullv' = length hullv1"
    by blast
  have dr: "drop i points = p # drop (Suc i) points"
    using lt by (simp add: p_def Cons_nth_drop_Suc)
  have unfold: "lower_loop points (int (length points)) (int i) hullv (int (length st))
          = lower_loop points (int (length points)) (int i + 1) hullv1 (int (length (push st p)))"
    using lt by (subst lower_loop.simps) (simp add: pop sto p_def [symmetric])
  have "int i + 1 = int (Suc i)" by simp
  with unfold r tk' len' len1 dr show ?case by simp
qed

lemma upper_loop_refines:
  assumes "j \<le> length points"
    and "take (length base + length st) hullv = base @ rev st"
    and "length base + length st + j \<le> length hullv"
  shows "\<exists>hullv'. upper_loop points (int (length base) + 2) (int j - 1) hullv
                     (int (length base + length st))
                     = Inr (hullv', int (length base + length (foldl push st (rev (take j points)))))
           \<and> take (length base + length (foldl push st (rev (take j points)))) hullv'
               = base @ rev (foldl push st (rev (take j points)))"
  using assms
proof (induction j arbitrary: st hullv)
  case 0
  then show ?case by (subst upper_loop.simps) simp
next
  case (Suc j)
  then have lt: "j < length points" by simp
  define p where "p = points ! j"
  have t: "take (length base + length st) hullv = base @ rev st" by (rule Suc.prems(2))
  have c: "length base + length st < length hullv" using Suc.prems(3) by simp
  define hullv1 where "hullv1 = hullv[length base + length (pops st p) := p]"
  have pop: "pop_loop hullv (int (length base) + 2) (int (length base + length st)) p
               = Inr (int (length base + length (pops st p)))"
    by (rule step_refines(1) [OF t c])
  have sto: "store hullv (int (length base + length (pops st p))) p
               = Inr (hullv1, int (length base + length (push st p)))"
    using step_refines(2) [OF t c, of p] by (simp add: hullv1_def)
  have tk: "take (length base + length (push st p)) hullv1 = base @ rev (push st p)"
    using step_refines(3) [OF t c, of p] by (simp add: hullv1_def)
  have len1: "length hullv1 = length hullv" by (simp add: hullv1_def)
  have j': "j \<le> length points" using lt by simp
  have cap: "length base + length (push st p) + j \<le> length hullv1"
    using Suc.prems(3) length_push [of st p] len1 by simp
  from Suc.IH [OF j' tk cap] obtain hullv' where
    r: "upper_loop points (int (length base) + 2) (int j - 1) hullv1
          (int (length base + length (push st p)))
          = Inr (hullv', int (length base + length (foldl push (push st p) (rev (take j points)))))"
    and tk': "take (length base + length (foldl push (push st p) (rev (take j points)))) hullv'
                = base @ rev (foldl push (push st p) (rev (take j points)))"
    by blast
  have tr: "rev (take (Suc j) points) = p # rev (take j points)"
    using lt by (simp add: p_def take_Suc_conv_app_nth)
  have nn: "int (Suc j) - 1 \<ge> 0" by simp
  have nj: "nat (int (Suc j) - 1) = j" by simp
  have unfold: "upper_loop points (int (length base) + 2) (int (Suc j) - 1) hullv
                  (int (length base + length st))
          = upper_loop points (int (length base) + 2) (int (Suc j) - 1 - 1) hullv1
                  (int (length base + length (push st p)))"
    by (subst upper_loop.simps) (simp only: nn nj if_True pop sto p_def [symmetric] sum.case prod.case)
  have "int (Suc j) - 1 - 1 = int j - 1" by simp
  with unfold r tk' tr show ?case by simp
qed

lemma hd_scan: "ps \<noteq> [] \<Longrightarrow> hd (scan ps) = last ps"
proof -
  assume "ps \<noteq> []"
  then have "ps = butlast ps @ [last ps]" by simp
  then have "scan ps = push (scan (butlast ps)) (last ps)"
    by (metis scan_def foldl_append foldl_Cons foldl_Nil)
  then show ?thesis by (simp add: push_def)
qed

lemma scan_nonempty: "ps \<noteq> [] \<Longrightarrow> scan ps \<noteq> []"
proof -
  assume "ps \<noteq> []"
  then have "ps = butlast ps @ [last ps]" by simp
  then have "scan ps = push (scan (butlast ps)) (last ps)"
    by (metis scan_def foldl_append foldl_Cons foldl_Nil)
  then show ?thesis by (simp add: push_def)
qed

lemma scan_rev:
  assumes "ps \<noteq> []"
  shows "scan (rev ps) = foldl push [last ps] (rev (take (length ps - 1) ps))"
proof -
  have r: "rev ps = last ps # rev (butlast ps)"
    using assms by (metis append_butlast_last_id rev_eq_Cons_iff rev_rev_ident)
  have "scan (rev ps) = foldl push [] (last ps # rev (butlast ps))"
    by (simp only: scan_def r)
  then show ?thesis by (simp add: push_def butlast_conv_take)
qed

lemma convexHull_refines:
  "convexHull polygons
     = Inr (Polygon (monotone_chain (sort_points (concat (map getVertices polygons)))))"
proof -
  define points where "points = concat (map getVertices polygons)"
  define ps where "ps = sort_points points"
  define n where "n = length points"
  define hullv0 where "hullv0 = replicate (nat (2 * int n)) (Cartesian 0 0)"
  have lenps: "length ps = n" by (simp add: ps_def sort_points_def n_def)
  have len0: "length hullv0 = 2 * n" by (simp add: hullv0_def nat_mult_distrib)
  define L where "L = scan ps"
  have "\<exists>hullv'. lower_loop ps (int (length ps)) (int 0) hullv0 (int (length ([]::Cartesian list)))
                     = Inr (hullv', int (length (foldl push [] (drop 0 ps))))
           \<and> take (length (foldl push [] (drop 0 ps))) hullv' = rev (foldl push [] (drop 0 ps))
           \<and> length hullv' = length hullv0"
    by (rule lower_loop_refines) (simp_all add: len0 lenps)
  then obtain hullv1 where low: "lower_loop ps (int n) 0 hullv0 0 = Inr (hullv1, int (length L))"
    and tk1: "take (length L) hullv1 = rev L" and len1: "length hullv1 = 2 * n"
    by (auto simp add: L_def scan_def lenps len0)
  have unfold: "convexHull polygons
      = (case upper_loop ps (int (length L) + 1) (int n - 2) hullv1 (int (length L)) of
           Inl e \<Rightarrow> Inl e
         | Inr (hullv, k) \<Rightarrow> Inr (Polygon (take (nat k) hullv)))"
    by (simp add: convexHull_def Let_def points_def [symmetric] ps_def [symmetric]
        n_def [symmetric] hullv0_def [symmetric] low)
  show ?thesis
  proof (cases "ps = []")
    case True
    then have "n = 0" using lenps by simp
    moreover have "L = []" using True by (simp add: L_def scan_def)
    ultimately have "convexHull polygons = Inr (Polygon [])"
      unfolding unfold by (subst upper_loop.simps) simp
    with True show ?thesis by (simp add: monotone_chain_def ps_def points_def)
  next
    case False
    then have npos: "0 < n" using lenps by auto
    have Lne: "L \<noteq> []" using False by (simp add: L_def scan_nonempty)
    define base where "base = rev (tl L)"
    have lb: "length base + 1 = length L" using Lne by (simp add: base_def)
    have hdL: "hd L = last ps" using False by (simp add: L_def hd_scan)
    have Llen: "length L \<le> n"
      using length_foldl_push [of "[]" ps] by (simp add: L_def scan_def lenps)
    have t: "take (length base + length [hd L]) hullv1 = base @ rev [hd L]"
    proof -
      have "rev L = rev (tl L) @ [hd L]" using Lne by (metis hd_Cons_tl rev.simps(2))
      with tk1 lb show ?thesis by (simp add: base_def)
    qed
    have j: "n - 1 \<le> length ps" using lenps by simp
    have cap: "length base + length [hd L] + (n - 1) \<le> length hullv1"
      using lb Llen len1 npos by simp
    from upper_loop_refines [OF j t cap] obtain hullv2 where
      up: "upper_loop ps (int (length base) + 2) (int (n - 1) - 1) hullv1
             (int (length base + length [hd L]))
             = Inr (hullv2, int (length base + length (foldl push [hd L] (rev (take (n - 1) ps)))))"
      and tk2: "take (length base + length (foldl push [hd L] (rev (take (n - 1) ps)))) hullv2
                  = base @ rev (foldl push [hd L] (rev (take (n - 1) ps)))"
      by blast
    have U: "foldl push [hd L] (rev (take (n - 1) ps)) = scan (rev ps)"
      using scan_rev [OF False] by (simp add: hdL lenps)
    have e1: "int (length base) + 2 = int (length L) + 1" using lb by linarith
    have e2: "int (n - 1) - 1 = int n - 2" using npos by simp
    have e3: "int (length base + length [hd L]) = int (length L)" using lb by simp
    have up': "upper_loop ps (int (length L) + 1) (int n - 2) hullv1 (int (length L))
                 = Inr (hullv2, int (length base + length (scan (rev ps))))"
      using up by (simp only: e1 e2 e3 U)
    have tk2': "take (length base + length (scan (rev ps))) hullv2 = base @ rev (scan (rev ps))"
      using tk2 by (simp only: U)
    have natk: "nat (int (length base + length (scan (rev ps))))
                  = length base + length (scan (rev ps))"
      by (rule nat_int)
    have "convexHull polygons = Inr (Polygon (base @ rev (scan (rev ps))))"
      unfolding unfold up' by (simp only: sum.case prod.case natk tk2')
    moreover have "base @ rev (scan (rev ps)) = rev (closed_chain ps)"
      by (simp add: base_def closed_chain_def L_def)
    ultimately show ?thesis using False by (simp add: monotone_chain_def ps_def points_def)
  qed
qed

subsection \<open>convexHull: correctness\<close>

text \<open>
  The sorted vector is unique: whatever permutation of the points \<open>std::sort\<close> leaves
  behind, if it is sorted lexicographically it is \<open>sort_points\<close> of the points.
\<close>

lemma coords_inj: "coords p = coords q \<Longrightarrow> p = q"
  by (cases p; cases q) (simp add: coords_def)

lemma filter_same_point:
  "filter (\<lambda>x. coords k = coords x) xs = replicate (count (mset xs) k) k"
proof (induction xs)
  case Nil
  then show ?case by simp
next
  case (Cons x xs)
  then show ?case by (auto dest: coords_inj)
qed

lemma sort_points_unique:
  assumes "mset qs = mset points" and "sorted_wrt lexle qs"
  shows "qs = sort_points points"
proof -
  have "lexle = (\<lambda>x y. coords x \<le> coords y)"
    by (simp add: lexle_def fun_eq_iff)
  with assms(2) have "sorted (map coords qs)"
    by (simp add: sorted_wrt_map)
  moreover have "filter (\<lambda>x. coords k = coords x) qs = filter (\<lambda>x. coords k = coords x) points" for k
    by (simp only: filter_same_point assms(1))
  ultimately have "sort_key coords points = qs"
    using assms(1) by (intro properties_for_sort_key) simp_all
  then show ?thesis by (simp add: sort_points_def)
qed

lemma sorted_sort_points: "sorted_wrt lexle (sort_points points)"
proof -
  have "sorted (map coords (sort_key coords points))" by (rule sorted_sort_key)
  then have "sorted_wrt (\<lambda>x y. coords x \<le> coords y) (sort_key coords points)"
    by (simp add: sorted_wrt_map)
  moreover have "lexle = (\<lambda>x y. coords x \<le> coords y)"
    by (simp add: lexle_def fun_eq_iff)
  ultimately show ?thesis by (simp add: sort_points_def)
qed

lemma set_sort_points: "set (sort_points points) = set points"
  by (simp add: sort_points_def)

lemma sort_points_two_squares:
  "sort_points (concat (map getVertices two_squares)) =
     [Cartesian 0 0, Cartesian 0 1, Cartesian 1 0, Cartesian 1 1,
      Cartesian 3 0, Cartesian 3 1, Cartesian 4 0, Cartesian 4 1]"
  by (simp add: sort_points_def two_squares_def unit_square_def coords_def insort_key.simps)

text \<open>
  Of the exact reading only: for polygons whose vertices are not all collinear (three
  of them span a non-zero cross product), convexHull returns, without leaving the
  bounds of its vector, a vertex list \<open>H\<close> that is the convex hull of all input vertices
  in counter-clockwise order, closed by its first vertex:
  \<^item> \<open>H\<close> has at least four entries, its first vertex is repeated as its last, and no
    other vertex is repeated;
  \<^item> the vertices of \<open>H\<close> are exactly the true hull vertices of the input, so input
    points inside the hull or inside an edge are excluded;
  \<^item> counter-clockwise order: every three successive vertices turn strictly left, also
    across the closing vertex;
  \<^item> \<open>H\<close> encloses the input: every input vertex is on the left of or on every edge.

  The program decides every turn by the sign of a rounded cross product of doubles, and
  a rounded zero pops a true hull vertex: the points (0,0), (2^27 + 1, 2^27),
  (2^27 + 2, 2^27 + 1) have the cross product 1, which the doubles compute as 0, and the
  program returns the first, the last and the first again. The sizes \<open>n\<close> and \<open>2 * n\<close> are
  unbounded integers here and \<open>int\<close>s in the program.
\<close>

lemma convexHull_correct:
  assumes pts: "points = concat (map getVertices polygons)"
    and nc: "\<exists>a\<in>set points. \<exists>b\<in>set points. \<exists>c\<in>set points. crossProduct a b c \<noteq> 0"
  shows "\<exists>H. convexHull polygons = Inr (Polygon H)
           \<and> 4 \<le> length H \<and> hd H = last H
           \<and> distinct (butlast H)
           \<and> (\<forall>v. v \<in> set H \<longleftrightarrow> hull_vertex (set points) v)
           \<and> (\<forall>i. i + 2 < length H \<longrightarrow> 0 < crossProduct (H ! i) (H ! (i + 1)) (H ! (i + 2)))
           \<and> 0 < crossProduct (H ! (length H - 2)) (H ! 0) (H ! 1)
           \<and> (\<forall>q\<in>set points. \<forall>i. i + 1 < length H \<longrightarrow> 0 \<le> crossProduct (H ! i) (H ! (i + 1)) q)"
proof -
  define ps where "ps = sort_points points"
  define W where "W = closed_chain ps"
  define H where "H = rev W"
  have srt: "sorted_wrt lexle ps" by (simp add: ps_def sorted_sort_points)
  have S: "set ps = set points" by (simp add: ps_def set_sort_points)
  have nc': "\<exists>a\<in>set ps. \<exists>b\<in>set ps. \<exists>c\<in>set ps. crossProduct a b c \<noteq> 0"
    using nc by (simp only: S)
  have ne: "ps \<noteq> []" using nc' by auto
  note props = closed_chain_props [OF srt nc', folded W_def, unfolded S]
  have Wsub: "set W \<subseteq> set points" by (rule props(1))
  have Wtrn: "turns W" by (rule props(2))
  have Wcov: "covers (set points) W" by (rule props(3))
  have Wclosed: "hd W = last W" by (rule props(4))
  have Wlen: "4 \<le> length W" by (rule props(5))
  have Wdist: "distinct (tl W)" by (rule props(6))
  have Wcorners: "\<forall>v\<in>set W. \<exists>u\<in>set W. \<exists>w\<in>set W. corner (set points) u v w" by (rule props(7))
  have Wclosing: "0 < crossProduct (W ! 1) (last W) (W ! (length W - 2))" by (rule props(8))
  have Wne: "W \<noteq> []" using Wlen by auto
  have len: "length H = length W" by (simp add: H_def)
  have result: "convexHull polygons = Inr (Polygon H)"
    using ne by (simp add: convexHull_refines monotone_chain_def pts [symmetric]
        ps_def [symmetric] W_def [symmetric] H_def)
  have closed: "hd H = last H"
    using Wne Wclosed by (simp add: H_def hd_rev last_rev)
  have dist: "distinct (butlast H)"
    using Wdist by (simp add: H_def butlast_rev)
  have nth: "H ! i = W ! (length W - 1 - i)" if "i < length W" for i
    using that by (simp add: H_def rev_nth)
  have vertices: "v \<in> set H \<longleftrightarrow> hull_vertex (set points) v" for v
  proof
    assume "v \<in> set H"
    then have v: "v \<in> set W" by (simp add: H_def)
    with Wcorners obtain u w where "corner (set points) u v w" by blast
    moreover have "v \<in> set points" using v Wsub by auto
    ultimately show "hull_vertex (set points) v" by (rule corner_hull_vertex)
  next
    assume "hull_vertex (set points) v"
    with Wne Wsub Wcorners have "v \<in> set W" by (rule hull_vertex_among_corners)
    then show "v \<in> set H" by (simp add: H_def)
  qed
  have turn: "0 < crossProduct (H ! i) (H ! (i + 1)) (H ! (i + 2))" if i: "i + 2 < length H" for i
  proof -
    define j where "j = length W - 3 - i"
    have j: "j + 2 < length W" using i len by (simp add: j_def)
    have "length W - 1 - i = j + 2" "length W - 1 - (i + 1) = j + 1" "length W - 1 - (i + 2) = j"
      using i len by (simp_all add: j_def)
    then have "H ! i = W ! (j + 2)" "H ! (i + 1) = W ! (j + 1)" "H ! (i + 2) = W ! j"
      using i len nth [of i] nth [of "i + 1"] nth [of "i + 2"] by simp_all
    with turns_nth [OF Wtrn j] show ?thesis by simp
  qed
  have closing: "0 < crossProduct (H ! (length H - 2)) (H ! 0) (H ! 1)"
  proof -
    have "length W - 1 - (length H - 2) = 1" "length W - 1 - 1 = length W - 2"
      using Wlen len by simp_all
    then have "H ! (length H - 2) = W ! 1" "H ! 1 = W ! (length W - 2)"
      using Wlen len nth [of "length H - 2"] nth [of 1] by simp_all
    moreover have "H ! 0 = last W"
      using Wne nth [of 0] by (simp add: last_conv_nth)
    ultimately show ?thesis using Wclosing by simp
  qed
  have encloses: "0 \<le> crossProduct (H ! i) (H ! (i + 1)) q"
    if q: "q \<in> set points" and i: "i + 1 < length H" for q i
  proof -
    define j where "j = length W - 2 - i"
    have j: "j + 1 < length W" using i len by (simp add: j_def)
    have "length W - 1 - i = j + 1" "length W - 1 - (i + 1) = j"
      using i len by (simp_all add: j_def)
    then have "H ! i = W ! (j + 1)" "H ! (i + 1) = W ! j"
      using i len nth [of i] nth [of "i + 1"] by simp_all
    with covers_nth [OF Wcov j q] show ?thesis by simp
  qed
  from result Wlen len closed dist vertices turn closing encloses show ?thesis
    by (intro exI [of _ H]) simp
qed

text \<open>
  The two unit squares of the specification, three units apart: the hull is the
  rectangle around both, counter-clockwise from the lexicographically least corner,
  and the four corners between the squares are left out. Every cross product of this
  evaluation is a small integer, so the program computes the same.
\<close>

lemma convexHull_two_squares:
  "convexHull two_squares
     = Inr (Polygon [Cartesian 0 0, Cartesian 4 0, Cartesian 4 1, Cartesian 0 1, Cartesian 0 0])"
  by (simp add: convexHull_refines sort_points_two_squares monotone_chain_def closed_chain_def
      scan_def push_def crossProduct_def)

end
